theory Spec2Isabelle
  imports Complex_Main "HOL-Library.Word" "HOL-Library.Multiset"
begin

unbundle bit_operations_syntax

section \<open>Core classes (core.h, core.cpp)\<close>

text \<open>
  A C++ \<^verbatim>\<open>float\<close> is modelled by the real number it denotes (finite values only, no
  NaN), so that the comparisons of the source are the comparisons of \<open>real\<close>. The
  element type of \<^verbatim>\<open>Primitive::Data\<close> is \<^verbatim>\<open>GLfloat\<close>; the code stores either a float
  or, through \<^verbatim>\<open>reinterpret_cast\<close>, the 32 bits of a \<^verbatim>\<open>uint32_t\<close> in such a slot.
\<close>

type_synonym float = real

datatype GLfloat = Flt float | Bits "32 word"

type_synonym Data = "GLfloat list"

definition RGBA_PAD :: GLfloat where
  "RGBA_PAD = Flt 0"

definition RGBA_ELEMS :: nat where
  "RGBA_ELEMS = 4"

datatype Vec3f = Vec3f float float float

datatype Primitive_t = SPHERE | DISC | TRIANGLE | CONE

fun Primitive_t_value :: "Primitive_t \<Rightarrow> 32 word" where
  "Primitive_t_value SPHERE = 0"
| "Primitive_t_value DISC = 1"
| "Primitive_t_value TRIANGLE = 2"
| "Primitive_t_value CONE = 3"

text \<open>
  The data members of the four classes derived from \<^verbatim>\<open>Primitive\<close>. For the cone the
  members are, in the order of the class declaration: Center1, Center2, Radius1, Radius2,
  UnitAxis, AxisLen, WidthCoeff, CosB, DotAxC1.
\<close>

datatype Shape =
    Sphere Vec3f float
  | Disc Vec3f Vec3f float
  | Triangle Vec3f Vec3f Vec3f
  | Cone Vec3f Vec3f float float Vec3f float float float float

text \<open>
  An object of class \<^verbatim>\<open>Primitive\<close>: the bounding box members of the base class and the
  members of the derived class.
\<close>

record Primitive =
  Xmin :: float
  Xmax :: float
  Ymin :: float
  Ymax :: float
  Zmin :: float
  Zmax :: float
  shape :: Shape

fun GetType :: "Shape \<Rightarrow> Primitive_t" where
  "GetType (Sphere c r) = SPHERE"
| "GetType (Disc c n r) = DISC"
| "GetType (Triangle v0 v1 v2) = TRIANGLE"
| "GetType (Cone c1 c2 r1 r2 ua al wc cb dc) = CONE"

fun PushVector :: "Data \<Rightarrow> Vec3f \<Rightarrow> Data" where
  "PushVector data (Vec3f a b c) = data @ [Flt a, Flt b, Flt c]"

text \<open>The four overrides of \<^verbatim>\<open>StoreDataIntoBVH\<close>; \<^verbatim>\<open>push_back\<close> appends one slot.\<close>

fun StoreDataIntoBVH :: "Shape \<Rightarrow> Data \<Rightarrow> Data" where
  "StoreDataIntoBVH (Sphere (Vec3f cx cy cz) r) data =
     data @ [Flt cx] @ [Flt cy] @ [Flt cz] @ [Flt r]"
| "StoreDataIntoBVH (Disc (Vec3f cx cy cz) (Vec3f nx ny nz) r) data =
     data @ [Flt cx] @ [Flt cy] @ [Flt cz] @ [Flt r]
          @ [Flt nx] @ [Flt ny] @ [Flt nz] @ [RGBA_PAD]"
| "StoreDataIntoBVH (Triangle (Vec3f ax ay az) (Vec3f bx by bz) (Vec3f cx cy cz)) data =
     data @ [Flt ax] @ [Flt ay] @ [Flt az] @ [RGBA_PAD]
          @ [Flt bx] @ [Flt by] @ [Flt bz] @ [RGBA_PAD]
          @ [Flt cx] @ [Flt cy] @ [Flt cz] @ [RGBA_PAD]"
| "StoreDataIntoBVH (Cone c1 c2 r1 r2 ua al wc cb dc) data =
     (let d1 = PushVector data c1 @ [Flt r1];
          d2 = PushVector d1 c2 @ [Flt r2];
          d3 = PushVector d2 ua @ [Flt al]
      in d3 @ [Flt wc] @ [Flt cb] @ [Flt dc] @ [RGBA_PAD])"

definition StoreIntoBVH :: "Primitive \<Rightarrow> Data \<Rightarrow> Data" where
  "StoreIntoBVH p data =
     (let ptype = Primitive_t_value (GetType (shape p))
      in StoreDataIntoBVH (shape p)
           (data @ [Bits ptype] @ [RGBA_PAD] @ [RGBA_PAD] @ [RGBA_PAD]))"

subsection \<open>The decoders\<close>

text \<open>
  The static \<^verbatim>\<open>PrintBVH\<close> functions take the iterator by reference and write to a stream.
  The iterator is the index \<open>it\<close> into the data, returned advanced; the stream is the
  list of what was written, a string or the value of a slot. \<open>*it++\<close> beyond the last
  element has no defined behaviour: the model returns \<open>None\<close>.
\<close>

datatype token = Str string | Num GLfloat

type_synonym printer = "(token list \<times> nat) option"

definition put :: "string \<Rightarrow> token list \<times> nat \<Rightarrow> printer" where
  "put s st = Some (fst st @ [Str s], snd st)"

definition put_next :: "Data \<Rightarrow> token list \<times> nat \<Rightarrow> printer" where
  "put_next data st =
     (if snd st < length data then Some (fst st @ [Num (data ! snd st)], Suc (snd st))
      else None)"

definition skip :: "nat \<Rightarrow> token list \<times> nat \<Rightarrow> printer" where
  "skip n st = Some (fst st, snd st + n)"

fun run :: "(token list \<times> nat \<Rightarrow> printer) list \<Rightarrow> token list \<times> nat \<Rightarrow> printer" where
  "run [] st = Some st"
| "run (c # cs) st = (case c st of None \<Rightarrow> None | Some st' \<Rightarrow> run cs st')"

definition Sphere_PrintBVH :: "Data \<Rightarrow> token list \<times> nat \<Rightarrow> printer" where
  "Sphere_PrintBVH data =
     run [put ''{ ('', put_next data,
          put '', '', put_next data,
          put '', '', put_next data,
          put ''), '', put_next data, put '' }'']"

definition Disc_PrintBVH :: "Data \<Rightarrow> token list \<times> nat \<Rightarrow> printer" where
  "Disc_PrintBVH data =
     run [put ''{ ('', put_next data,
          put '', '', put_next data,
          put '', '', put_next data,
          put ''), '', put_next data,
          put '', ('', put_next data,
          put '', '', put_next data,
          put '', '', put_next data, put '') }'',
          skip 1]"

definition Triangle_PrintBVH_vertex :: "Data \<Rightarrow> nat \<Rightarrow> token list \<times> nat \<Rightarrow> printer" where
  "Triangle_PrintBVH_vertex data i =
     run ([put ''('', put_next data,
           put '', '', put_next data,
           put '', '', put_next data, put '')'']
          @ (if i < 2 then [put '', ''] else [])
          @ [skip 1])"

definition Triangle_PrintBVH :: "Data \<Rightarrow> token list \<times> nat \<Rightarrow> printer" where
  "Triangle_PrintBVH data =
     run ([put ''{ '']
          @ map (Triangle_PrintBVH_vertex data) [0 ..< 3]
          @ [put '' }''])"

definition Cone_PrintBVH :: "Data \<Rightarrow> token list \<times> nat \<Rightarrow> printer" where
  "Cone_PrintBVH data =
     run [put ''{ '',
          put ''('', put_next data,
          put '', '', put_next data,
          put '', '', put_next data, put ''), '',
          skip 1,
          put ''('', put_next data,
          put '', '', put_next data,
          put '', '', put_next data, put ''), '',
          skip 1,
          put ''('', put_next data,
          put '', '', put_next data,
          put '', '', put_next data, put ''), '',
          skip 1,
          put_next data, put '', '',
          put_next data, put '', '',
          put_next data, put '', '',
          put_next data, put '', '',
          put_next data, put '', '',
          put_next data,
          skip 2,
          put '' }'']"

text \<open>The decoder that \<^verbatim>\<open>Print\<close> calls for a primitive of a given type.\<close>

fun PrintBVH :: "Primitive_t \<Rightarrow> Data \<Rightarrow> token list \<times> nat \<Rightarrow> printer" where
  "PrintBVH SPHERE = Sphere_PrintBVH"
| "PrintBVH DISC = Disc_PrintBVH"
| "PrintBVH TRIANGLE = Triangle_PrintBVH"
| "PrintBVH CONE = Cone_PrintBVH"

section \<open>Bounding volumes hierarchy (bvh.h, bvh.cpp)\<close>

text \<open>
  A node of the tree. The two \<^verbatim>\<open>unique_ptr\<close> members are \<open>None\<close> when null; the
  vector of primitive pointers is the list of the objects pointed to.
\<close>

datatype BoundingBox =
  BoundingBox (xmin: float) (xmax: float) (ymin: float) (ymax: float)
    (zmin: float) (zmax: float)
    (lower: "BoundingBox option") (higher: "BoundingBox option")
    (primitives: "Primitive list")

definition LEAF :: "32 word" where
  "LEAF = push_bit 31 1"

definition IS_LOWER :: "32 word" where
  "IS_LOWER = push_bit 30 1"

definition IS_ROOT :: "32 word" where
  "IS_ROOT = push_bit 29 1"

definition FLAGS_MASK :: "32 word" where
  "FLAGS_MASK = LEAF OR IS_LOWER OR IS_ROOT"

subsection \<open>Subdivide\<close>

text \<open>
  The sums and differences of floats in \<^verbatim>\<open>Subdivide\<close> are rounded by the machine, to
  \<^verbatim>\<open>float\<close> or, where a \<^verbatim>\<open>double\<close> literal takes part, to \<^verbatim>\<open>double\<close>. The two
  roundings are parameters of the model; nothing is assumed about them, and
  \<open>exact\<close> is the instance without rounding error.
\<close>

record rounding =
  to_float :: "real \<Rightarrow> real"
  to_double :: "real \<Rightarrow> real"

definition exact :: rounding where
  "exact = \<lparr>to_float = (\<lambda>v. v), to_double = (\<lambda>v. v)\<rparr>"

text \<open>The literal \<^verbatim>\<open>99.0e+29f\<close>: the \<^verbatim>\<open>float\<close> nearest to 99.0e+29.\<close>

definition far :: float where
  "far = 16378176 * 2 ^ 79"

type_synonym extent = "float \<times> float \<times> float \<times> float \<times> float \<times> float"

text \<open>The body of the loop over the range, lines 49 to 60.\<close>

fun grow :: "extent \<Rightarrow> Primitive \<Rightarrow> extent" where
  "grow (xminall, xmaxall, yminall, ymaxall, zminall, zmaxall) p =
     (if Xmin p < xminall then Xmin p else xminall,
      if Xmax p > xmaxall then Xmax p else xmaxall,
      if Ymin p < yminall then Ymin p else yminall,
      if Ymax p > ymaxall then Ymax p else ymaxall,
      if Zmin p < zminall then Zmin p else zminall,
      if Zmax p > zmaxall then Zmax p else zmaxall)"

function bounds_loop :: "Primitive list \<Rightarrow> nat \<Rightarrow> nat \<Rightarrow> extent \<Rightarrow> extent" where
  "bounds_loop prims i to ext =
     (if i < to then bounds_loop prims (Suc i) to (grow ext (prims ! i)) else ext)"
  by pat_completeness auto
termination
  by (relation "measure (\<lambda>(prims, i, to, ext). to - i)") auto

text \<open>
  The keys of the three comparators handed to \<^verbatim>\<open>std::sort\<close>, which are also the left
  sides of the comparisons in the three \<^verbatim>\<open>while\<close> loops: the sum of two floats is a
  float, its product with the \<^verbatim>\<open>double\<close> 0.5 is exact.
\<close>

definition center_x :: "rounding \<Rightarrow> Primitive \<Rightarrow> real" where
  "center_x fp p = to_float fp (Xmin p + Xmax p) * 0.5"

definition center_y :: "rounding \<Rightarrow> Primitive \<Rightarrow> real" where
  "center_y fp p = to_float fp (Ymin p + Ymax p) * 0.5"

definition center_z :: "rounding \<Rightarrow> Primitive \<Rightarrow> real" where
  "center_z fp p = to_float fp (Zmin p + Zmax p) * 0.5"

text \<open>
  \<^verbatim>\<open>std::sort(primitives.begin() + from, iterTo, cmp)\<close>, where \<open>cmp\<close> compares the key
  with \<open><\<close>: the range comes out in ascending order of the key. The order of elements
  with equal keys is not specified by the standard; the model takes the stable one.
\<close>

definition sort_range :: "(Primitive \<Rightarrow> real) \<Rightarrow> Primitive list \<Rightarrow> nat \<Rightarrow> nat \<Rightarrow> Primitive list" where
  "sort_range key prims from to =
     take from prims @ sort_key key (take (to - from) (drop from prims)) @ drop to prims"

text \<open>The three \<^verbatim>\<open>while\<close> loops that look for the first primitive beyond the middle.\<close>

function find_loop :: "(Primitive \<Rightarrow> real) \<Rightarrow> real \<Rightarrow> Primitive list \<Rightarrow> nat \<Rightarrow> nat \<Rightarrow> nat" where
  "find_loop key middle prims to subdivisionIndex =
     (if subdivisionIndex < to \<and> key (prims ! subdivisionIndex) \<le> middle
      then find_loop key middle prims to (Suc subdivisionIndex)
      else subdivisionIndex)"
  by pat_completeness auto
termination
  by (relation "measure (\<lambda>(key, middle, prims, to, subdivisionIndex). to - subdivisionIndex)") auto

text \<open>Lines 88 to 135: the choice of the axis, the sort and the search.\<close>

definition split_range ::
  "rounding \<Rightarrow> Primitive list \<Rightarrow> nat \<Rightarrow> nat \<Rightarrow> extent \<Rightarrow> Primitive list \<times> nat" where
  "split_range fp prims from to ext =
     (case ext of (xminall, xmaxall, yminall, ymaxall, zminall, zmaxall) \<Rightarrow>
        let xrange = to_float fp (xmaxall - xminall);
            yrange = to_float fp (ymaxall - yminall);
            zrange = to_float fp (zmaxall - zminall)
        in if xrange \<ge> yrange \<and> xrange \<ge> zrange then
             let reordered = sort_range (center_x fp) prims from to
             in (reordered, find_loop (center_x fp) (to_double fp (xminall + 0.5 * xrange)) reordered to from)
           else if yrange \<ge> xrange \<and> yrange \<ge> zrange then
             let reordered = sort_range (center_y fp) prims from to
             in (reordered, find_loop (center_y fp) (to_double fp (yminall + 0.5 * yrange)) reordered to from)
           else if zrange \<ge> xrange \<and> zrange \<ge> yrange then
             let reordered = sort_range (center_z fp) prims from to
             in (reordered, find_loop (center_z fp) (to_double fp (zminall + 0.5 * zrange)) reordered to from)
           else (prims, from))"

text \<open>Lines 139 to 145.\<close>

definition avoid_empty :: "nat \<Rightarrow> nat \<Rightarrow> nat \<Rightarrow> nat" where
  "avoid_empty from to subdivisionIndex =
     (if to - from > 2 then
        (if subdivisionIndex = from then subdivisionIndex + 1
         else if subdivisionIndex = to then subdivisionIndex - 1
         else subdivisionIndex)
      else subdivisionIndex)"

text \<open>
  \<^verbatim>\<open>Subdivide\<close> fills the node it is given and reorders the vector it is given by
  reference: the model returns the node and the vector. The node is never null (the
  constructor and \<^verbatim>\<open>Subdivide\<close> itself allocate it just before the call), so the
  first two lines of the function have no counterpart. \<^verbatim>\<open>unsigned\<close> is 32 bits wide:
  \<open>maxNumLevels - 1\<close> and \<open>currentLevel + 1\<close> wrap around. \<^verbatim>\<open>size_t\<close> is a
  natural number; in the call of the constructor and in every call that follows from it
  \<open>from \<le> to\<close> and \<open>to\<close> is at most the size of the vector, so that \<open>to - from\<close>
  does not wrap and every \<^verbatim>\<open>primitives[i]\<close> is an element of the vector.
\<close>

function Subdivide ::
  "rounding \<Rightarrow> Primitive list \<Rightarrow> nat \<Rightarrow> nat \<Rightarrow> 32 word \<Rightarrow> 32 word \<Rightarrow> 32 word
     \<Rightarrow> BoundingBox \<times> Primitive list" where
  "Subdivide fp prims from to currentLevel maxNumLevels minPrimitivesPerNode =
     (case bounds_loop prims from to (far, - far, far, - far, far, - far) of
        (xminall, xmaxall, yminall, ymaxall, zminall, zmaxall) \<Rightarrow>
          if to - from \<le> unat minPrimitivesPerNode \<or> currentLevel = maxNumLevels - 1 then
            (BoundingBox xminall xmaxall yminall ymaxall zminall zmaxall None None
               (take (to - from) (drop from prims)), prims)
          else
            (case split_range fp prims from to
                    (xminall, xmaxall, yminall, ymaxall, zminall, zmaxall) of
               (reordered, found) \<Rightarrow>
                 let subdivisionIndex = avoid_empty from to found
                 in (case Subdivide fp reordered from subdivisionIndex
                            (currentLevel + 1) maxNumLevels minPrimitivesPerNode of
                       (lo, prims1) \<Rightarrow>
                         (case Subdivide fp prims1 subdivisionIndex to
                                 (currentLevel + 1) maxNumLevels minPrimitivesPerNode of
                            (hi, prims2) \<Rightarrow>
                              (BoundingBox xminall xmaxall yminall ymaxall zminall zmaxall
                                 (Some lo) (Some hi) [], prims2)))))"
  by pat_completeness auto
termination
proof (relation "measure (\<lambda>(fp, prims, from, to, currentLevel, maxNumLevels, minPrimitivesPerNode).
                    unat (maxNumLevels - 1 - currentLevel))")
  show "wf (measure (\<lambda>(fp :: rounding, prims :: Primitive list, from :: nat, to :: nat,
                      currentLevel :: 32 word, maxNumLevels :: 32 word,
                      minPrimitivesPerNode :: 32 word). unat (maxNumLevels - 1 - currentLevel)))"
    by simp
next
  have step: "unat (m - 1 - (c + 1)) < unat (m - 1 - c)" if "c \<noteq> m - 1" for c m :: "32 word"
  proof -
    have ne: "m - 1 - c \<noteq> 0" using that by auto
    have "unat (m - 1 - c - 1) = unat (m - 1 - c) - 1"
      using ne by (rule unat_minus_one)
    moreover have "0 < unat (m - 1 - c)" using ne by (simp add: unat_gt_0)
    ultimately have "unat (m - 1 - c - 1) < unat (m - 1 - c)" by simp
    moreover have "m - 1 - (c + 1) = m - 1 - c - 1" by simp
    ultimately show ?thesis by simp
  qed
  fix fp :: rounding and prims :: "Primitive list" and "from" to :: nat
    and currentLevel maxNumLevels minPrimitivesPerNode :: "32 word"
  assume "\<not> (to - from \<le> unat minPrimitivesPerNode \<or> currentLevel = maxNumLevels - 1)"
  then have ne: "currentLevel \<noteq> maxNumLevels - 1" by simp
  fix reordered :: "Primitive list" and subdivisionIndex :: nat
  show "((fp, reordered, from, subdivisionIndex, currentLevel + 1, maxNumLevels, minPrimitivesPerNode),
         fp, prims, from, to, currentLevel, maxNumLevels, minPrimitivesPerNode)
        \<in> measure (\<lambda>(fp, prims, from, to, currentLevel, maxNumLevels, minPrimitivesPerNode).
                      unat (maxNumLevels - 1 - currentLevel))"
    using step [OF ne] by simp
  fix prims1 :: "Primitive list"
  show "((fp, prims1, subdivisionIndex, to, currentLevel + 1, maxNumLevels, minPrimitivesPerNode),
         fp, prims, from, to, currentLevel, maxNumLevels, minPrimitivesPerNode)
        \<in> measure (\<lambda>(fp, prims, from, to, currentLevel, maxNumLevels, minPrimitivesPerNode).
                      unat (maxNumLevels - 1 - currentLevel))"
    using step [OF ne] by simp
qed

text \<open>
  The class holds the root; the constructor allocates it and subdivides the whole
  vector, which it may reorder.
\<close>

record BoundingVolumesHierarchy =
  Root :: "BoundingBox option"

definition BoundingVolumesHierarchy ::
  "rounding \<Rightarrow> Primitive list \<Rightarrow> 32 word \<Rightarrow> 32 word \<Rightarrow> BoundingVolumesHierarchy \<times> Primitive list" where
  "BoundingVolumesHierarchy fp prims maxNumLevels minPrimitivesPerNode =
     (case Subdivide fp prims 0 (length prims) 0 maxNumLevels minPrimitivesPerNode of
        (node, prims') \<Rightarrow> (\<lparr>Root = Some node\<rparr>, prims'))"

subsection \<open>CompileFrom and Compile\<close>

text \<open>
  Dereferencing a null child and a failing \<^verbatim>\<open>assert\<close> end the program; in the model they
  are the two errors that \<^verbatim>\<open>CompileFrom\<close> can return. The assertion is taken to be
  checked, as it is in a build without \<^verbatim>\<open>NDEBUG\<close>.
\<close>

datatype error = NullPointer | AssertionFailed

definition PushElements :: "Data \<Rightarrow> GLfloat list \<Rightarrow> Data" where
  "PushElements vec list = foldl (\<lambda>v elem. v @ [elem]) vec list"

text \<open>
  \<^verbatim>\<open>CompileFrom\<close> appends to the vector it is given by reference and writes two of its
  elements again: the model takes the vector and returns it. The test
  \<^verbatim>\<open>&node == Root.get()\<close> compares addresses; since a child is never the root, the model
  passes its outcome as \<open>isRoot\<close>: true in the call that \<^verbatim>\<open>Compile\<close> makes, false in the
  two recursive calls. The casts to \<^verbatim>\<open>uint32_t\<close> truncate to 32 bits.
\<close>

fun CompileFrom :: "BoundingBox \<Rightarrow> bool \<Rightarrow> Data \<Rightarrow> 32 word \<Rightarrow> bool \<Rightarrow> error + Data" where
  "CompileFrom (BoundingBox x0 x1 y0 y1 z0 z1 lo hi ps) isRoot compiledTree parentAddr isLower =
     (let nodeAddr = (of_nat (length compiledTree div RGBA_ELEMS) :: 32 word);
          tree1 = PushElements compiledTree
                    [Flt x0, Flt y0, Flt z0, RGBA_PAD, Flt x1, Flt y1, Flt z1, RGBA_PAD];
          flags0 = (if isLower then IS_LOWER else 0);
          flags = (if isRoot then flags0 OR IS_ROOT else flags0)
      in if ps = [] then
           if \<not> length tree1 \<le> 2 ^ 31 then Inl AssertionFailed
           else
             let tree2 = tree1 @ [Bits flags];
                 lowerAddrLoc = unat (of_nat (length tree2) :: 32 word);
                 tree3 = tree2 @ [Flt 0];
                 higherAddrLoc = unat (of_nat (length tree3) :: 32 word);
                 tree4 = tree3 @ [Flt 0];
                 tree5 = tree4 @ [Bits parentAddr];
                 lowerAddr = (of_nat (length tree5 div RGBA_ELEMS) :: 32 word);
                 tree6 = tree5[lowerAddrLoc := Bits lowerAddr]
             in case lo of
                  None \<Rightarrow> Inl NullPointer
                | Some l \<Rightarrow>
                   (case CompileFrom l False tree6 nodeAddr True of
                      Inl e \<Rightarrow> Inl e
                    | Inr tree7 \<Rightarrow>
                       let higherAddr = (of_nat (length tree7 div RGBA_ELEMS) :: 32 word);
                           tree8 = tree7[higherAddrLoc := Bits higherAddr]
                       in case hi of
                            None \<Rightarrow> Inl NullPointer
                          | Some h \<Rightarrow> CompileFrom h False tree8 nodeAddr False)
         else
           let flags1 = flags OR LEAF;
               flags2 = flags1 OR ((of_nat (length ps) :: 32 word) AND NOT FLAGS_MASK);
               tree2 = tree1 @ [Bits flags2];
               tree3 = PushElements tree2 [RGBA_PAD, RGBA_PAD];
               tree4 = tree3 @ [Bits parentAddr]
           in Inr (foldl (\<lambda>tree p. StoreIntoBVH p tree) tree4 ps))"

definition Compile :: "BoundingVolumesHierarchy \<Rightarrow> Data \<Rightarrow> error + Data" where
  "Compile bvh compiledTree =
     (case Root bvh of
        None \<Rightarrow> Inl NullPointer
      | Some node \<Rightarrow> CompileFrom node True compiledTree 0 False)"

section \<open>Notions in which the properties are stated\<close>

text \<open>
  None of the definitions of this section is code of the program. They name the parts of
  a vector and of a tree that the properties speak about.
\<close>

subsection \<open>Ranges of the vector\<close>

text \<open>The elements with indices from \<open>from\<close> (included) to \<open>to\<close> (excluded).\<close>

definition range_of :: "'a list \<Rightarrow> nat \<Rightarrow> nat \<Rightarrow> 'a list" where
  "range_of xs from to = take (to - from) (drop from xs)"

text \<open>
  \<open>ys\<close> is \<open>xs\<close> with the range from \<open>from\<close> to \<open>to\<close> rearranged: the same length, the
  same elements before and behind the range, the same elements with the same
  multiplicities inside it.
\<close>

definition permuted_in :: "nat \<Rightarrow> nat \<Rightarrow> 'a list \<Rightarrow> 'a list \<Rightarrow> bool" where
  "permuted_in from to xs ys \<longleftrightarrow>
     length ys = length xs \<and> take from ys = take from xs \<and> drop to ys = drop to xs
     \<and> mset (range_of ys from to) = mset (range_of xs from to)"

subsection \<open>Nodes of a tree\<close>

definition start_extent :: extent where
  "start_extent = (far, - far, far, - far, far, - far)"

fun node_of :: "extent \<Rightarrow> BoundingBox option \<Rightarrow> BoundingBox option \<Rightarrow> Primitive list \<Rightarrow> BoundingBox" where
  "node_of (x0, x1, y0, y1, z0, z1) lo hi ps = BoundingBox x0 x1 y0 y1 z0 z1 lo hi ps"

text \<open>All nodes of a tree, the root first.\<close>

fun nodes :: "BoundingBox \<Rightarrow> BoundingBox list" where
  "nodes (BoundingBox x0 x1 y0 y1 z0 z1 lo hi ps) =
     BoundingBox x0 x1 y0 y1 z0 z1 lo hi ps
     # (case lo of None \<Rightarrow> [] | Some l \<Rightarrow> nodes l)
     @ (case hi of None \<Rightarrow> [] | Some h \<Rightarrow> nodes h)"

text \<open>The number of nodes on the longest path from the root downwards.\<close>

fun depth :: "BoundingBox \<Rightarrow> nat" where
  "depth (BoundingBox x0 x1 y0 y1 z0 z1 lo hi ps) =
     1 + max (case lo of None \<Rightarrow> 0 | Some l \<Rightarrow> depth l)
             (case hi of None \<Rightarrow> 0 | Some h \<Rightarrow> depth h)"

text \<open>
  A leaf has primitives and no children; an internal node has no primitives and two
  children. A tree is \<open>shaped\<close> when each of its nodes is one or the other.
\<close>

definition is_leaf :: "BoundingBox \<Rightarrow> bool" where
  "is_leaf n \<longleftrightarrow> primitives n \<noteq> [] \<and> lower n = None \<and> higher n = None"

definition is_internal :: "BoundingBox \<Rightarrow> bool" where
  "is_internal n \<longleftrightarrow> primitives n = [] \<and> lower n \<noteq> None \<and> higher n \<noteq> None"

definition shaped :: "BoundingBox \<Rightarrow> bool" where
  "shaped t \<longleftrightarrow> (\<forall>n \<in> set (nodes t). is_leaf n \<or> is_internal n)"

text \<open>The nodes without children, and the primitives that they hold.\<close>

definition leaves :: "BoundingBox \<Rightarrow> BoundingBox list" where
  "leaves t = filter (\<lambda>n. lower n = None \<and> higher n = None) (nodes t)"

definition stored :: "BoundingBox \<Rightarrow> Primitive list" where
  "stored t = concat (map primitives (leaves t))"

subsection \<open>Boxes\<close>

definition extent_of :: "BoundingBox \<Rightarrow> extent" where
  "extent_of n = (xmin n, xmax n, ymin n, ymax n, zmin n, zmax n)"






subsection \<open>The compiled tree, laid out in one pass\<close>

text \<open>What \<^verbatim>\<open>StoreIntoBVH\<close> appends for one primitive.\<close>

definition stored_primitive :: "Primitive \<Rightarrow> Data" where
  "stored_primitive p = StoreIntoBVH p []"

text \<open>The first slot of the info quad of a node.\<close>

definition node_flags :: "bool \<Rightarrow> bool \<Rightarrow> Primitive list \<Rightarrow> 32 word" where
  "node_flags isRoot isLower ps =
     (if isLower then IS_LOWER else 0) OR (if isRoot then IS_ROOT else 0)
     OR (if ps = [] then 0 else LEAF OR ((of_nat (length ps) :: 32 word) AND NOT FLAGS_MASK))"

text \<open>The number of slots that the record of a node and of all nodes below it takes.\<close>

fun slots :: "BoundingBox \<Rightarrow> nat" where
  "slots (BoundingBox x0 x1 y0 y1 z0 z1 lo hi ps) =
     12 + (if ps = [] then (case lo of None \<Rightarrow> 0 | Some l \<Rightarrow> slots l)
                           + (case hi of None \<Rightarrow> 0 | Some h \<Rightarrow> slots h)
           else length (concat (map stored_primitive ps)))"

text \<open>
  The slots of a tree whose record begins at slot \<open>pos\<close> of the vector, written down
  without going back: the addresses of the children are computed from the sizes of the
  records. \<^verbatim>\<open>CompileFrom\<close>, which reserves the two address slots and fills them in
  later, is shown below to append exactly these slots.
\<close>

fun layout :: "BoundingBox \<Rightarrow> bool \<Rightarrow> nat \<Rightarrow> 32 word \<Rightarrow> bool \<Rightarrow> Data" where
  "layout (BoundingBox x0 x1 y0 y1 z0 z1 lo hi ps) isRoot pos parentAddr isLower =
     [Flt x0, Flt y0, Flt z0, RGBA_PAD, Flt x1, Flt y1, Flt z1, RGBA_PAD]
     @ (if ps = [] then
          [Bits (node_flags isRoot isLower ps),
           Bits (of_nat ((pos + 12) div 4)),
           Bits (of_nat ((pos + 12 + (case lo of None \<Rightarrow> 0 | Some l \<Rightarrow> slots l)) div 4)),
           Bits parentAddr]
          @ (case lo of None \<Rightarrow> [] | Some l \<Rightarrow> layout l False (pos + 12) (of_nat (pos div 4)) True)
          @ (case hi of None \<Rightarrow> []
             | Some h \<Rightarrow> layout h False (pos + 12 + (case lo of None \<Rightarrow> 0 | Some l \<Rightarrow> slots l))
                          (of_nat (pos div 4)) False)
        else
          [Bits (node_flags isRoot isLower ps), RGBA_PAD, RGBA_PAD, Bits parentAddr]
          @ concat (map stored_primitive ps))"

text \<open>Every node without primitives has two children, so that \<^verbatim>\<open>CompileFrom\<close> finds them.\<close>

fun compilable :: "BoundingBox \<Rightarrow> bool" where
  "compilable (BoundingBox x0 x1 y0 y1 z0 z1 lo hi ps) \<longleftrightarrow>
     (ps = [] \<longrightarrow> (case lo of None \<Rightarrow> False | Some l \<Rightarrow> compilable l)
                 \<and> (case hi of None \<Rightarrow> False | Some h \<Rightarrow> compilable h))"

subsection \<open>Reading a compiled tree\<close>

text \<open>The \<^verbatim>\<open>uint32_t\<close> in slot \<open>i\<close>, if the slot exists and holds one.\<close>

definition uint_at :: "Data \<Rightarrow> nat \<Rightarrow> 32 word option" where
  "uint_at tree i =
     (if i < length tree then (case tree ! i of Bits w \<Rightarrow> Some w | Flt v \<Rightarrow> None) else None)"

definition box_quads :: "BoundingBox \<Rightarrow> Data" where
  "box_quads n = [Flt (xmin n), Flt (ymin n), Flt (zmin n), RGBA_PAD,
                  Flt (xmax n), Flt (ymax n), Flt (zmax n), RGBA_PAD]"

text \<open>
  \<open>linked tree n q parent\<close>: the record of node \<open>n\<close> begins at quad \<open>q\<close> of the compiled
  tree (its two box quads are there); if the node has a parent, the fourth slot of its
  info quad is the quad index \<open>parent\<close>; and if the node has no primitives, the second
  and third slot of its info quad are the quad indices just behind its own three quads
  and just behind the record of its lower child, and the records of its lower and higher
  child begin there, linked in the same way with \<open>q\<close> as their parent.
\<close>

fun linked :: "Data \<Rightarrow> BoundingBox \<Rightarrow> nat \<Rightarrow> nat option \<Rightarrow> bool" where
  "linked tree (BoundingBox x0 x1 y0 y1 z0 z1 lo hi ps) q parent \<longleftrightarrow>
     take 8 (drop (4 * q) tree) = box_quads (BoundingBox x0 x1 y0 y1 z0 z1 lo hi ps)
     \<and> (case parent of None \<Rightarrow> True
         | Some p \<Rightarrow> map_option unat (uint_at tree (4 * q + 11)) = Some p)
     \<and> (ps = [] \<longrightarrow>
          (case lo of None \<Rightarrow> False
           | Some l \<Rightarrow>
              (case uint_at tree (4 * q + 9) of None \<Rightarrow> False
               | Some a \<Rightarrow> unat a = q + 3 \<and> linked tree l (unat a) (Some q)
                   \<and> (case hi of None \<Rightarrow> False
                       | Some h \<Rightarrow>
                          (case uint_at tree (4 * q + 10) of None \<Rightarrow> False
                           | Some b \<Rightarrow> unat b = q + 3 + slots l div 4
                               \<and> linked tree h (unat b) (Some q))))))"

text \<open>
  \<open>flagged tree n q isLower isRoot\<close>: in the first slot of the info quad of the node
  whose record begins at quad \<open>q\<close>, bit 31 is set exactly if the node has no children,
  bit 30 exactly if \<open>isLower\<close>, bit 29 exactly if \<open>isRoot\<close>, and the bits 0 to 28 are
  the number of primitives of a node without children and 0 otherwise; and the same
  holds for the children, found at the quad indices that the info quad gives, the lower
  one with \<open>isLower\<close> true, the higher one with \<open>isLower\<close> false, both with \<open>isRoot\<close>
  false.
\<close>

fun flagged :: "Data \<Rightarrow> BoundingBox \<Rightarrow> nat \<Rightarrow> bool \<Rightarrow> bool \<Rightarrow> bool" where
  "flagged tree (BoundingBox x0 x1 y0 y1 z0 z1 lo hi ps) q isLower isRoot \<longleftrightarrow>
     (case uint_at tree (4 * q + 8) of
        None \<Rightarrow> False
      | Some w \<Rightarrow>
          (bit w 31 \<longleftrightarrow> lo = None \<and> hi = None)
          \<and> (bit w 30 \<longleftrightarrow> isLower)
          \<and> (bit w 29 \<longleftrightarrow> isRoot)
          \<and> unat (take_bit 29 w) = (if lo = None \<and> hi = None then length ps else 0))
     \<and> (case lo of None \<Rightarrow> True
         | Some l \<Rightarrow> (case uint_at tree (4 * q + 9) of None \<Rightarrow> False
                      | Some a \<Rightarrow> flagged tree l (unat a) True False))
     \<and> (case hi of None \<Rightarrow> True
         | Some h \<Rightarrow> (case uint_at tree (4 * q + 10) of None \<Rightarrow> False
                      | Some a \<Rightarrow> flagged tree h (unat a) False False))"

section \<open>Example inputs\<close>

text \<open>The cone that \<^verbatim>\<open>Cone(Vec3f(0,0,0), Vec3f(0,0,1), 1, 1)\<close> constructs.\<close>

definition unit_cone :: Shape where
  "unit_cone = Cone (Vec3f 0 0 0) (Vec3f 0 0 1) 1 1 (Vec3f 0 0 1) 1 0 0 0"

text \<open>
  The sphere that \<^verbatim>\<open>Sphere(Vec3f(c, 0, 0), 1)\<close> constructs, for a \<open>c\<close> for which
  \<open>c - 1\<close> and \<open>c + 1\<close> are floats.
\<close>

definition ball :: "float \<Rightarrow> Primitive" where
  "ball c = \<lparr>Xmin = c - 1, Xmax = c + 1, Ymin = - 1, Ymax = 1, Zmin = - 1, Zmax = 1,
             shape = Sphere (Vec3f c 0 0) 1\<rparr>"


definition three_balls :: "Primitive list" where
  "three_balls = [ball 0, ball 8, ball 4]"

text \<open>The tree that the constructor builds for \<open>three_balls\<close>, 1024 and 2.\<close>

definition three_balls_tree :: BoundingBox where
  "three_balls_tree = BoundingBox (- 1) 9 (- 1) 1 (- 1) 1
     (Some (BoundingBox (- 1) 5 (- 1) 1 (- 1) 1 None None [ball 0, ball 4]))
     (Some (BoundingBox 7 9 (- 1) 1 (- 1) 1 None None [ball 8])) []"

text \<open>This tree compiled into an empty vector, and into a vector that holds one quad.\<close>

definition three_balls_compiled :: Data where
  "three_balls_compiled =
     [Flt (- 1), Flt (- 1), Flt (- 1), Flt 0, Flt 9, Flt 1, Flt 1, Flt 0,
      Bits 536870912, Bits 3, Bits 10, Bits 0,
      Flt (- 1), Flt (- 1), Flt (- 1), Flt 0, Flt 5, Flt 1, Flt 1, Flt 0,
      Bits 3221225474, Flt 0, Flt 0, Bits 0,
      Bits 0, Flt 0, Flt 0, Flt 0, Flt 0, Flt 0, Flt 0, Flt 1,
      Bits 0, Flt 0, Flt 0, Flt 0, Flt 4, Flt 0, Flt 0, Flt 1,
      Flt 7, Flt (- 1), Flt (- 1), Flt 0, Flt 9, Flt 1, Flt 1, Flt 0,
      Bits 2147483649, Flt 0, Flt 0, Bits 0,
      Bits 0, Flt 0, Flt 0, Flt 0, Flt 8, Flt 0, Flt 0, Flt 1]"

definition three_balls_appended :: Data where
  "three_balls_appended =
     [Flt 0, Flt 0, Flt 0, Flt 0,
      Flt (- 1), Flt (- 1), Flt (- 1), Flt 0, Flt 9, Flt 1, Flt 1, Flt 0,
      Bits 536870912, Bits 4, Bits 11, Bits 0,
      Flt (- 1), Flt (- 1), Flt (- 1), Flt 0, Flt 5, Flt 1, Flt 1, Flt 0,
      Bits 3221225474, Flt 0, Flt 0, Bits 1,
      Bits 0, Flt 0, Flt 0, Flt 0, Flt 0, Flt 0, Flt 0, Flt 1,
      Bits 0, Flt 0, Flt 0, Flt 0, Flt 4, Flt 0, Flt 0, Flt 1,
      Flt 7, Flt (- 1), Flt (- 1), Flt 0, Flt 9, Flt 1, Flt 1, Flt 0,
      Bits 2147483649, Flt 0, Flt 0, Bits 1,
      Bits 0, Flt 0, Flt 0, Flt 0, Flt 8, Flt 0, Flt 0, Flt 1]"

section \<open>Encoders and decoders of the primitives\<close>

lemma length_PushVector: "length (PushVector data v) = length data + 3"
  by (cases v) simp

lemma length_StoreDataIntoBVH_Sphere:
  "length (StoreDataIntoBVH (Sphere c r) data) = length data + 4"
  by (cases c) simp

lemma length_StoreDataIntoBVH_Disc:
  "length (StoreDataIntoBVH (Disc c n r) data) = length data + 8"
  by (cases c; cases n) simp

lemma length_StoreDataIntoBVH_Triangle:
  "length (StoreDataIntoBVH (Triangle v0 v1 v2) data) = length data + 12"
  by (cases v0; cases v1; cases v2) simp

lemma length_StoreDataIntoBVH_Cone:
  "length (StoreDataIntoBVH (Cone c1 c2 r1 r2 ua al wc cb dc) data) = length data + 16"
  by (simp add: Let_def length_PushVector)

text \<open>
  Sphere, disc and triangle: the decoder started where the encoder started writes the
  members in the order in which they were stored, and stops where the encoder stopped.
\<close>

lemma Sphere_PrintBVH_StoreDataIntoBVH:
  "Sphere_PrintBVH (StoreDataIntoBVH (Sphere (Vec3f cx cy cz) r) data) (out, length data) =
     Some (out @ [Str ''{ ('', Num (Flt cx), Str '', '', Num (Flt cy), Str '', '', Num (Flt cz),
                  Str ''), '', Num (Flt r), Str '' }''],
           length (StoreDataIntoBVH (Sphere (Vec3f cx cy cz) r) data))"
  by (simp add: Sphere_PrintBVH_def put_def put_next_def nth_append)

lemma Disc_PrintBVH_StoreDataIntoBVH:
  "Disc_PrintBVH (StoreDataIntoBVH (Disc (Vec3f cx cy cz) (Vec3f nx ny nz) r) data)
       (out, length data) =
     Some (out @ [Str ''{ ('', Num (Flt cx), Str '', '', Num (Flt cy), Str '', '', Num (Flt cz),
                  Str ''), '', Num (Flt r),
                  Str '', ('', Num (Flt nx), Str '', '', Num (Flt ny), Str '', '', Num (Flt nz),
                  Str '') }''],
           length (StoreDataIntoBVH (Disc (Vec3f cx cy cz) (Vec3f nx ny nz) r) data))"
  by (simp add: Disc_PrintBVH_def put_def put_next_def skip_def nth_append)

lemma Triangle_PrintBVH_StoreDataIntoBVH:
  "Triangle_PrintBVH
       (StoreDataIntoBVH (Triangle (Vec3f ax ay az) (Vec3f bx by bz) (Vec3f cx cy cz)) data)
       (out, length data) =
     Some (out @ [Str ''{ '',
                  Str ''('', Num (Flt ax), Str '', '', Num (Flt ay), Str '', '', Num (Flt az),
                  Str '')'', Str '', '',
                  Str ''('', Num (Flt bx), Str '', '', Num (Flt by), Str '', '', Num (Flt bz),
                  Str '')'', Str '', '',
                  Str ''('', Num (Flt cx), Str '', '', Num (Flt cy), Str '', '', Num (Flt cz),
                  Str '')'', Str '' }''],
           length (StoreDataIntoBVH
                     (Triangle (Vec3f ax ay az) (Vec3f bx by bz) (Vec3f cx cy cz)) data))"
  by (simp add: Triangle_PrintBVH_def Triangle_PrintBVH_vertex_def put_def put_next_def
        skip_def nth_append upt_rec)

section \<open>Subdivide\<close>

declare bounds_loop.simps [simp del] find_loop.simps [simp del] Subdivide.simps [simp del]

subsection \<open>The loops\<close>


lemma bounds_loop_empty: "bounds_loop prims i i ext = ext"
  by (subst bounds_loop.simps) simp

lemma find_loop_bounds:
  "s \<le> to \<Longrightarrow> s \<le> find_loop key middle prims to s \<and> find_loop key middle prims to s \<le> to"
proof (induction key middle prims to s rule: find_loop.induct)
  case (1 key middle prims to s)
  show ?case
  proof (cases "s < to \<and> key (prims ! s) \<le> middle")
    case True
    with 1 show ?thesis by (subst (1 2) find_loop.simps) auto
  next
    case False
    with 1 show ?thesis by (subst (1 2) find_loop.simps) auto
  qed
qed


subsection \<open>One call\<close>

text \<open>
  The two ways through \<^verbatim>\<open>Subdivide\<close>, and the induction over its calls that they give:
  a call either makes a leaf, or reorders the range, splits it and calls itself on the two
  parts, the second call on the vector that the first one leaves behind.
\<close>

lemma Subdivide_leaf:
  assumes "to - from \<le> unat mp \<or> cl = ml - 1"
  shows "Subdivide fp prims from to cl ml mp =
           (node_of (bounds_loop prims from to start_extent) None None (range_of prims from to), prims)"
  using assms
  by (subst Subdivide.simps) (simp add: start_extent_def range_of_def split: prod.splits)

lemma Subdivide_node:
  assumes "\<not> (to - from \<le> unat mp \<or> cl = ml - 1)"
    and "split_range fp prims from to (bounds_loop prims from to start_extent) = (reordered, found)"
    and "Subdivide fp reordered from (avoid_empty from to found) (cl + 1) ml mp = (lo, prims1)"
    and "Subdivide fp prims1 (avoid_empty from to found) to (cl + 1) ml mp = (hi, prims2)"
  shows "Subdivide fp prims from to cl ml mp =
           (node_of (bounds_loop prims from to start_extent) (Some lo) (Some hi) [], prims2)"
proof -
  obtain x0 x1 y0 y1 z0 z1 where
    b: "bounds_loop prims from to (far, - far, far, - far, far, - far) = (x0, x1, y0, y1, z0, z1)"
    by (metis prod_cases3)
  show ?thesis
    using assms b by (subst Subdivide.simps) (simp add: start_extent_def Let_def)
qed

lemma Subdivide_induct [case_names Leaf Node]:
  assumes leaf: "\<And>fp prims from to cl ml mp.
      to - from \<le> unat mp \<or> cl = ml - 1 \<Longrightarrow> P fp prims from to cl ml mp"
    and node: "\<And>fp prims from to cl ml mp reordered found lo prims1.
      \<not> (to - from \<le> unat mp \<or> cl = ml - 1) \<Longrightarrow>
      split_range fp prims from to (bounds_loop prims from to start_extent) = (reordered, found) \<Longrightarrow>
      Subdivide fp reordered from (avoid_empty from to found) (cl + 1) ml mp = (lo, prims1) \<Longrightarrow>
      P fp reordered from (avoid_empty from to found) (cl + 1) ml mp \<Longrightarrow>
      P fp prims1 (avoid_empty from to found) to (cl + 1) ml mp \<Longrightarrow>
      P fp prims from to cl ml mp"
  shows "P fp prims from to cl ml mp"
proof (induction fp prims "from" to cl ml mp rule: Subdivide.induct)
  case (1 fp prims "from" to cl ml mp)
  show ?case
  proof (cases "to - from \<le> unat mp \<or> cl = ml - 1")
    case True
    then show ?thesis by (rule leaf)
  next
    case False
    obtain x0 x1 y0 y1 z0 z1 where b: "bounds_loop prims from to (far, - far, far, - far, far, - far) = (x0, x1, y0, y1, z0, z1)"
      by (metis prod_cases3)
    obtain reordered found where s: "split_range fp prims from to (x0, x1, y0, y1, z0, z1) = (reordered, found)"
      by (metis surj_pair)
    obtain lo prims1 where l: "Subdivide fp reordered from (avoid_empty from to found) (cl + 1) ml mp = (lo, prims1)"
      by (metis surj_pair)
    have p1: "P fp reordered from (avoid_empty from to found) (cl + 1) ml mp"
      using "1.IH"(1) [OF b [symmetric] refl refl refl refl False s [symmetric] refl] .
    have p2: "P fp prims1 (avoid_empty from to found) to (cl + 1) ml mp"
      using "1.IH"(2) [OF b [symmetric] refl refl refl refl False s [symmetric] refl l [symmetric]] .
    show ?thesis
      using node [OF False _ l p1 p2] b s by (simp add: start_extent_def)
  qed
qed


subsection \<open>Ranges\<close>

lemma range_of_append:
  assumes "from \<le> a" "a \<le> to"
  shows "range_of xs from to = range_of xs from a @ range_of xs a to"
proof -
  have "to - from = (a - from) + (to - a)" using assms by simp
  then have "take (to - from) (drop from xs) = take ((a - from) + (to - a)) (drop from xs)"
    by simp
  also have "\<dots> = take (a - from) (drop from xs) @ take (to - a) (drop (a - from) (drop from xs))"
    by (rule take_add)
  also have "drop (a - from) (drop from xs) = drop a xs"
    using assms by simp
  finally show ?thesis by (simp add: range_of_def)
qed

lemma range_of_split3:
  assumes "from \<le> a" "a \<le> b" "b \<le> to"
  shows "range_of xs from to = drop from (take a xs) @ range_of xs a b @ take (to - b) (drop b xs)"
proof -
  have "range_of xs from to = range_of xs from a @ range_of xs a to"
    using assms by (intro range_of_append) simp_all
  also have "range_of xs a to = range_of xs a b @ range_of xs b to"
    using assms by (intro range_of_append) simp_all
  finally show ?thesis by (simp add: range_of_def drop_take)
qed

lemma range_of_whole:
  assumes "from \<le> to"
  shows "take from zs @ range_of zs from to @ drop to zs = zs"
proof -
  have "drop (to - from) (drop from zs) = drop to zs" using assms by simp
  then have "range_of zs from to @ drop to zs = drop from zs"
    unfolding range_of_def by (metis append_take_drop_id)
  then show ?thesis by simp
qed

lemma range_of_all [simp]: "range_of xs 0 (length xs) = xs"
  by (simp add: range_of_def)

lemma range_of_nonempty: "from < to \<Longrightarrow> to \<le> length xs \<Longrightarrow> range_of xs from to \<noteq> []"
  by (simp add: range_of_def)



lemma permuted_in_refl: "permuted_in from to xs xs"
  by (simp add: permuted_in_def)

lemma permuted_in_trans:
  "permuted_in from to xs ys \<Longrightarrow> permuted_in from to ys zs \<Longrightarrow> permuted_in from to xs zs"
  by (simp add: permuted_in_def)

lemma permuted_in_widen:
  assumes "from \<le> a" "a \<le> b" "b \<le> to" and p: "permuted_in a b xs ys"
  shows "permuted_in from to xs ys"
proof -
  from p have len: "length ys = length xs" and tk: "take a ys = take a xs"
    and dr: "drop b ys = drop b xs" and ms: "mset (range_of ys a b) = mset (range_of xs a b)"
    by (simp_all add: permuted_in_def)
  have "take from (take a ys) = take from (take a xs)" using tk by simp
  then have t: "take from ys = take from xs" using assms(1) by (simp add: min_def)
  have "drop (to - b) (drop b ys) = drop (to - b) (drop b xs)" using dr by simp
  then have d: "drop to ys = drop to xs" using assms(3) by simp
  have "mset (range_of ys from to) = mset (range_of xs from to)"
    unfolding range_of_split3 [OF assms(1-3)] using tk dr ms by simp
  with len t d show ?thesis by (simp add: permuted_in_def)
qed

lemma permuted_in_mset:
  assumes "from \<le> to" and p: "permuted_in from to xs ys"
  shows "mset ys = mset xs"
proof -
  have "take from ys @ range_of ys from to @ drop to ys = ys"
    using assms(1) by (rule range_of_whole)
  then have "mset ys = mset (take from ys @ range_of ys from to @ drop to ys)"
    by simp
  also have "\<dots> = mset (take from xs @ range_of xs from to @ drop to xs)"
    using p by (simp add: permuted_in_def)
  also have "take from xs @ range_of xs from to @ drop to xs = xs"
    using assms(1) by (rule range_of_whole)
  finally show ?thesis .
qed

lemma permuted_in_range_after:
  assumes "permuted_in a b xs ys" "b \<le> to"
  shows "range_of ys b to = range_of xs b to"
  using assms by (simp add: permuted_in_def range_of_def)


subsection \<open>The sort and the split\<close>

lemma length_sort_range: "from \<le> to \<Longrightarrow> to \<le> length prims \<Longrightarrow> length (sort_range key prims from to) = length prims"
  by (simp add: sort_range_def)

lemma take_sort_range: "from \<le> to \<Longrightarrow> to \<le> length prims \<Longrightarrow> take from (sort_range key prims from to) = take from prims"
  by (simp add: sort_range_def)

lemma drop_sort_range: "from \<le> to \<Longrightarrow> to \<le> length prims \<Longrightarrow> drop to (sort_range key prims from to) = drop to prims"
  by (simp add: sort_range_def)

lemma range_sort_range: "from \<le> to \<Longrightarrow> to \<le> length prims \<Longrightarrow>
  range_of (sort_range key prims from to) from to = sort_key key (range_of prims from to)"
  by (simp add: sort_range_def range_of_def)

lemma permuted_in_sort_range:
  "from \<le> to \<Longrightarrow> to \<le> length prims \<Longrightarrow> permuted_in from to prims (sort_range key prims from to)"
  by (simp add: permuted_in_def length_sort_range take_sort_range drop_sort_range range_sort_range)

lemma split_range_permuted:
  assumes "from \<le> to" "to \<le> length prims" "split_range fp prims from to ext = (reordered, found)"
  shows "permuted_in from to prims reordered"
  using assms
  by (auto simp: split_range_def Let_def permuted_in_sort_range permuted_in_refl split: prod.splits if_splits)

lemma split_range_found:
  assumes "from \<le> to" "split_range fp prims from to ext = (reordered, found)"
  shows "from \<le> found \<and> found \<le> to"
  using assms find_loop_bounds [of "from" to]
  by (auto simp: split_range_def Let_def split: prod.splits if_splits)

lemma avoid_empty_bounds:
  "from \<le> found \<Longrightarrow> found \<le> to \<Longrightarrow> from \<le> avoid_empty from to found \<and> avoid_empty from to found \<le> to"
  by (auto simp: avoid_empty_def)

lemma avoid_empty_strict:
  "from \<le> found \<Longrightarrow> found \<le> to \<Longrightarrow> 2 < to - from \<Longrightarrow> from < avoid_empty from to found \<and> avoid_empty from to found < to"
  by (auto simp: avoid_empty_def)


subsection \<open>The vector after a call\<close>

text \<open>
  A call on a range inside the vector rearranges this range and leaves the rest of the
  vector as it is. All accesses \<^verbatim>\<open>primitives[i]\<close> of the call stay inside the range: the
  split index lies between \<open>from\<close> and \<open>to\<close>, and the length of the vector does not
  change.
\<close>

lemma Subdivide_permuted:
  "from \<le> to \<Longrightarrow> to \<le> length prims \<Longrightarrow>
   permuted_in from to prims (snd (Subdivide fp prims from to cl ml mp))"
proof (induction fp prims "from" to cl ml mp rule: Subdivide_induct)
  case (Leaf fp prims "from" to cl ml mp)
  then show ?case by (simp add: Subdivide_leaf permuted_in_refl)
next
  case (Node fp prims "from" to cl ml mp reordered found lo prims1)
  let ?i = "avoid_empty from to found"
  obtain hi prims2 where h: "Subdivide fp prims1 ?i to (cl + 1) ml mp = (hi, prims2)"
    by (metis surj_pair)
  have r: "permuted_in from to prims reordered"
    using split_range_permuted [OF Node.prems Node.hyps(2)] .
  have i: "from \<le> ?i" "?i \<le> to"
    using avoid_empty_bounds split_range_found [OF Node.prems(1) Node.hyps(2)] by auto
  have lr: "length reordered = length prims" using r by (simp add: permuted_in_def)
  have 1: "permuted_in from ?i reordered prims1"
    using Node.IH(1) i Node.prems lr Node.hyps(3) by simp
  then have l1: "length prims1 = length prims" using lr by (simp add: permuted_in_def)
  have 2: "permuted_in ?i to prims1 prims2"
    using Node.IH(2) i Node.prems l1 h by simp
  have "permuted_in from to reordered prims1"
    using permuted_in_widen [OF _ i(1) i(2) 1] by simp
  moreover have "permuted_in from to prims1 prims2"
    using permuted_in_widen [OF i(1) i(2) _ 2] by simp
  ultimately have "permuted_in from to prims prims2"
    using r permuted_in_trans by blast
  then show ?case
    by (simp add: Subdivide_node [OF Node.hyps(1) Node.hyps(2) Node.hyps(3) h])
qed


section \<open>The tree that Subdivide builds\<close>

lemma nodes_node_of [simp]:
  "nodes (node_of ext lo hi ps) = node_of ext lo hi ps
     # (case lo of None \<Rightarrow> [] | Some l \<Rightarrow> nodes l) @ (case hi of None \<Rightarrow> [] | Some h \<Rightarrow> nodes h)"
  by (cases ext rule: prod_cases6) simp

lemma depth_node_of [simp]:
  "depth (node_of ext lo hi ps) = 1 + max (case lo of None \<Rightarrow> 0 | Some l \<Rightarrow> depth l)
             (case hi of None \<Rightarrow> 0 | Some h \<Rightarrow> depth h)"
  by (cases ext rule: prod_cases6) simp

lemma sel_node_of [simp]:
  "lower (node_of ext lo hi ps) = lo" "higher (node_of ext lo hi ps) = hi"
  "primitives (node_of ext lo hi ps) = ps" "extent_of (node_of ext lo hi ps) = ext"
  by (cases ext rule: prod_cases6; simp add: extent_of_def)+

lemma leaves_leaf [simp]: "leaves (node_of ext None None ps) = [node_of ext None None ps]"
  by (simp add: leaves_def)

lemma leaves_node [simp]: "leaves (node_of ext (Some l) (Some h) ps) = leaves l @ leaves h"
  by (simp add: leaves_def)

lemma length_stored: "length (stored t) = (\<Sum>n\<leftarrow>leaves t. length (primitives n))"
  by (simp add: stored_def length_concat comp_def)


subsection \<open>Depth\<close>

text \<open>
  As long as \<open>currentLevel\<close> differs from \<open>maxNumLevels - 1\<close>, one more level brings
  it one step nearer, also where the subtraction wraps around; this is the measure with
  which the recursion of \<^verbatim>\<open>Subdivide\<close> was shown to end.
\<close>

lemma level_step:
  fixes c m :: "32 word"
  assumes "c \<noteq> m - 1"
  shows "unat (m - 1 - (c + 1)) + 1 = unat (m - 1 - c)"
proof -
  have ne: "m - 1 - c \<noteq> 0" using assms by auto
  have "unat (m - 1 - c - 1) = unat (m - 1 - c) - 1"
    using ne by (rule unat_minus_one)
  moreover have "0 < unat (m - 1 - c)" using ne by (simp add: unat_gt_0)
  moreover have "m - 1 - (c + 1) = m - 1 - c - 1" by simp
  ultimately show ?thesis by simp
qed

lemma levels_left:
  fixes c m :: "32 word"
  assumes "unat c < unat m"
  shows "unat (m - 1 - c) + 1 = unat m - unat c"
proof -
  have "unat m < 2 ^ 32" using unsigned_less [of m] by simp
  then have "unat c + 1 < 2 ^ 32" using assms by simp
  then have c1: "unat (c + 1) = unat c + 1"
    by (simp add: unat_word_ariths)
  then have le: "c + 1 \<le> m" using assms by (simp add: word_le_nat_alt)
  have e: "m - 1 - c = m - (c + 1)" by simp
  have "unat (m - 1 - c) = unat m - unat (c + 1)"
    unfolding e using le by (rule unat_sub)
  then show ?thesis using c1 assms by simp
qed

lemma depth_Subdivide:
  "depth (fst (Subdivide fp prims from to cl ml mp)) \<le> unat (ml - 1 - cl) + 1"
proof (induction fp prims "from" to cl ml mp rule: Subdivide_induct)
  case (Leaf fp prims "from" to cl ml mp)
  then show ?case by (simp add: Subdivide_leaf)
next
  case (Node fp prims "from" to cl ml mp reordered found lo prims1)
  let ?i = "avoid_empty from to found"
  obtain hi prims2 where h: "Subdivide fp prims1 ?i to (cl + 1) ml mp = (hi, prims2)"
    by (metis surj_pair)
  have s: "unat (ml - 1 - (cl + 1)) + 1 = unat (ml - 1 - cl)"
    using Node.hyps(1) by (intro level_step) simp
  have "depth lo \<le> unat (ml - 1 - cl)" using Node.IH(1) Node.hyps(3) s by simp
  moreover have "depth hi \<le> unat (ml - 1 - cl)" using Node.IH(2) h s by simp
  ultimately show ?case
    by (simp add: Subdivide_node [OF Node.hyps(1) Node.hyps(2) Node.hyps(3) h])
qed


subsection \<open>Leaves and internal nodes\<close>

text \<open>
  A node with primitives never has children. With a non-empty range and at least two
  primitives allowed in a node, a range that is split holds more than two primitives, the
  split index is moved away from both ends, and no node is left without primitives and
  without children.
\<close>

lemma Subdivide_childless:
  "\<forall>n \<in> set (nodes (fst (Subdivide fp prims from to cl ml mp))).
      primitives n \<noteq> [] \<longrightarrow> lower n = None \<and> higher n = None"
proof (induction fp prims "from" to cl ml mp rule: Subdivide_induct)
  case (Leaf fp prims "from" to cl ml mp)
  then show ?case by (simp add: Subdivide_leaf)
next
  case (Node fp prims "from" to cl ml mp reordered found lo prims1)
  obtain hi prims2 where
    h: "Subdivide fp prims1 (avoid_empty from to found) to (cl + 1) ml mp = (hi, prims2)"
    by (metis surj_pair)
  show ?case
    using Node.IH Node.hyps(3) h
    by (auto simp add: Subdivide_node [OF Node.hyps(1) Node.hyps(2) Node.hyps(3) h])
qed

lemma shape_Subdivide:
  "from < to \<Longrightarrow> to \<le> length prims \<Longrightarrow> 2 \<le> unat mp \<Longrightarrow>
   \<forall>n \<in> set (nodes (fst (Subdivide fp prims from to cl ml mp))). is_leaf n \<or> is_internal n"
proof (induction fp prims "from" to cl ml mp rule: Subdivide_induct)
  case (Leaf fp prims "from" to cl ml mp)
  then show ?case by (simp add: Subdivide_leaf is_leaf_def range_of_nonempty)
next
  case (Node fp prims "from" to cl ml mp reordered found lo prims1)
  let ?i = "avoid_empty from to found"
  obtain hi prims2 where h: "Subdivide fp prims1 ?i to (cl + 1) ml mp = (hi, prims2)"
    by (metis surj_pair)
  have le: "from \<le> to" using Node.prems by simp
  have big: "2 < to - from" using Node.hyps(1) Node.prems(3) by simp
  have i: "from < ?i" "?i < to"
    using avoid_empty_strict [OF _ _ big] split_range_found [OF le Node.hyps(2)] by auto
  have lr: "length reordered = length prims"
    using split_range_permuted [OF le Node.prems(2) Node.hyps(2)] by (simp add: permuted_in_def)
  have "permuted_in from ?i reordered prims1"
    using Subdivide_permuted [of "from" ?i reordered fp "cl + 1" ml mp] i Node.prems lr Node.hyps(3)
    by simp
  then have l1: "length prims1 = length prims" using lr by (simp add: permuted_in_def)
  have 1: "\<forall>n \<in> set (nodes lo). is_leaf n \<or> is_internal n"
    using Node.IH(1) i Node.prems lr Node.hyps(3) by simp
  have 2: "\<forall>n \<in> set (nodes hi). is_leaf n \<or> is_internal n"
    using Node.IH(2) i Node.prems l1 h by simp
  show ?case
    using 1 2
    by (auto simp add: Subdivide_node [OF Node.hyps(1) Node.hyps(2) Node.hyps(3) h] is_internal_def)
qed


subsection \<open>The primitives in the leaves\<close>

lemma stored_Subdivide:
  "from \<le> to \<Longrightarrow> to \<le> length prims \<Longrightarrow>
   mset (stored (fst (Subdivide fp prims from to cl ml mp))) = mset (range_of prims from to)"
proof (induction fp prims "from" to cl ml mp rule: Subdivide_induct)
  case (Leaf fp prims "from" to cl ml mp)
  then show ?case by (simp add: Subdivide_leaf stored_def)
next
  case (Node fp prims "from" to cl ml mp reordered found lo prims1)
  let ?i = "avoid_empty from to found"
  obtain hi prims2 where h: "Subdivide fp prims1 ?i to (cl + 1) ml mp = (hi, prims2)"
    by (metis surj_pair)
  have r: "permuted_in from to prims reordered"
    using split_range_permuted [OF Node.prems Node.hyps(2)] .
  have i: "from \<le> ?i" "?i \<le> to"
    using avoid_empty_bounds split_range_found [OF Node.prems(1) Node.hyps(2)] by auto
  have lr: "length reordered = length prims" using r by (simp add: permuted_in_def)
  have p1: "permuted_in from ?i reordered prims1"
    using Subdivide_permuted [of "from" ?i reordered fp "cl + 1" ml mp] i Node.prems lr Node.hyps(3)
    by simp
  then have l1: "length prims1 = length prims" using lr by (simp add: permuted_in_def)
  have 1: "mset (stored lo) = mset (range_of reordered from ?i)"
    using Node.IH(1) i Node.prems lr Node.hyps(3) by simp
  have "mset (stored hi) = mset (range_of prims1 ?i to)"
    using Node.IH(2) i Node.prems l1 h by simp
  then have 2: "mset (stored hi) = mset (range_of reordered ?i to)"
    using permuted_in_range_after [OF p1 i(2)] by simp
  have "mset (stored lo) + mset (stored hi) = mset (range_of reordered from to)"
    using 1 2 range_of_append [OF i, of reordered] by simp
  also have "\<dots> = mset (range_of prims from to)"
    using r by (simp add: permuted_in_def)
  finally show ?case
    by (simp add: Subdivide_node [OF Node.hyps(1) Node.hyps(2) Node.hyps(3) h] stored_def)
qed


subsection \<open>Boxes\<close>



lemma Min_insert_le:
  fixes S :: "real set"
  assumes "finite S" "x \<in> S" "x \<le> a"
  shows "Min (insert a S) = Min S"
proof -
  have "Min S \<le> x" using assms(1,2) by (rule Min_le)
  then have "Min S \<le> a" using assms(3) by (rule order_trans)
  moreover have "S \<noteq> {}" using assms(2) by auto
  then have "Min (insert a S) = min a (Min S)" using assms(1) by (intro Min_insert)
  ultimately show ?thesis by (simp only: min_absorb2)
qed

lemma Max_insert_ge:
  fixes S :: "real set"
  assumes "finite S" "x \<in> S" "a \<le> x"
  shows "Max (insert a S) = Max S"
proof -
  have "x \<le> Max S" using assms(1,2) by (rule Max_ge)
  with assms(3) have "a \<le> Max S" by (rule order_trans)
  moreover have "S \<noteq> {}" using assms(2) by auto
  then have "Max (insert a S) = max a (Max S)" using assms(1) by (intro Max_insert)
  ultimately show ?thesis by (simp only: max_absorb2)
qed











section \<open>CompileFrom\<close>

subsection \<open>Primitives\<close>

lemma StoreDataIntoBVH_append: "StoreDataIntoBVH s data = data @ StoreDataIntoBVH s []"
proof (cases s)
  case (Sphere c r)
  then show ?thesis by (cases c) simp
next
  case (Disc c n r)
  then show ?thesis by (cases c; cases n) simp
next
  case (Triangle a b c)
  then show ?thesis by (cases a; cases b; cases c) simp
next
  case (Cone c1 c2 r1 r2 ua al wc cb dc)
  then show ?thesis by (cases c1; cases c2; cases ua) (simp add: Let_def)
qed

lemma StoreIntoBVH_append: "StoreIntoBVH p data = data @ stored_primitive p"
  unfolding StoreIntoBVH_def stored_primitive_def Let_def
  by (subst StoreDataIntoBVH_append, subst (2) StoreDataIntoBVH_append) simp

lemma foldl_StoreIntoBVH:
  "foldl (\<lambda>tree p. StoreIntoBVH p tree) data ps = data @ concat (map stored_primitive ps)"
  by (induction ps arbitrary: data) (simp_all add: StoreIntoBVH_append)

lemma length_payload: "length (StoreDataIntoBVH s []) \<in> {4, 8, 12, 16}"
proof (cases s)
  case (Sphere c r)
  then show ?thesis by (simp add: length_StoreDataIntoBVH_Sphere)
next
  case (Disc c n r)
  then show ?thesis by (simp add: length_StoreDataIntoBVH_Disc)
next
  case (Triangle a b c)
  then show ?thesis by (simp add: length_StoreDataIntoBVH_Triangle)
next
  case (Cone c1 c2 r1 r2 ua al wc cb dc)
  then show ?thesis by (simp only: length_StoreDataIntoBVH_Cone) simp
qed

lemma length_stored_primitive:
  "length (stored_primitive p) = 4 + length (StoreDataIntoBVH (shape p) [])"
  unfolding stored_primitive_def StoreIntoBVH_def Let_def
  by (subst StoreDataIntoBVH_append) simp

lemma dvd_stored_primitive: "4 dvd length (stored_primitive p)"
  using length_payload [of "shape p"] by (auto simp add: length_stored_primitive)

lemma le_stored_primitive: "8 \<le> length (stored_primitive p)"
  using length_payload [of "shape p"] by (auto simp add: length_stored_primitive)

lemma dvd_stored: "4 dvd length (concat (map stored_primitive ps))"
  by (induction ps) (simp_all add: dvd_stored_primitive)

lemma le_stored: "8 * length ps \<le> length (concat (map stored_primitive ps))"
proof (induction ps)
  case Nil
  then show ?case by simp
next
  case (Cons p ps)
  then show ?case using le_stored_primitive [of p] by simp
qed


subsection \<open>One call\<close>

text \<open>
  A node with primitives is compiled at once. For a node without primitives, once the
  assertion has passed, the two positions kept in \<^verbatim>\<open>uint32_t\<close> variables are the
  positions of the second and third slot of the info quad.
\<close>

lemma length_layout: "length (layout n isRoot pos parentAddr isLower) = slots n"
  by (induction n isRoot pos parentAddr isLower rule: layout.induct)
     (auto split: option.splits)

lemma slots_ge: "12 \<le> slots n"
  by (cases n) simp

lemma dvd_slots: "4 dvd slots n"
proof (induction n)
  case (BoundingBox x0 x1 y0 y1 z0 z1 lo hi ps)
  have l: "4 dvd (case lo of None \<Rightarrow> 0 | Some l \<Rightarrow> slots l)"
    using BoundingBox.IH(1) by (cases lo) simp_all
  have h: "4 dvd (case hi of None \<Rightarrow> 0 | Some h \<Rightarrow> slots h)"
    using BoundingBox.IH(2) by (cases hi) simp_all
  have "(4::nat) dvd 12" by simp
  then show ?case using l h dvd_stored [of ps] by (simp del: dvd_numeral_simp)
qed

lemma unat_loc:
  assumes "n < 2 ^ 32"
  shows "unat (of_nat n :: 32 word) = n"
  using assms by (intro of_nat_inverse [OF refl]) simp

lemma CompileFrom_leaf:
  assumes "ps \<noteq> []"
  shows "CompileFrom (BoundingBox x0 x1 y0 y1 z0 z1 lo hi ps) isRoot tree parentAddr isLower =
           Inr (tree @ layout (BoundingBox x0 x1 y0 y1 z0 z1 lo hi ps) isRoot (length tree)
                         parentAddr isLower)"
  using assms
  by (cases isRoot; cases isLower)
     (simp_all add: PushElements_def Let_def foldl_StoreIntoBVH node_flags_def or.assoc)

lemma CompileFrom_internal:
  "CompileFrom (BoundingBox x0 x1 y0 y1 z0 z1 lo hi []) isRoot tree parentAddr isLower =
     (if \<not> length tree + 8 \<le> 2 ^ 31 then Inl AssertionFailed
      else case lo of
             None \<Rightarrow> Inl NullPointer
           | Some l \<Rightarrow>
              (case CompileFrom l False
                      (tree @ [Flt x0, Flt y0, Flt z0, RGBA_PAD, Flt x1, Flt y1, Flt z1, RGBA_PAD,
                               Bits (node_flags isRoot isLower []),
                               Bits (of_nat ((length tree + 12) div 4)), Flt 0, Bits parentAddr])
                      (of_nat (length tree div 4)) True of
                 Inl e \<Rightarrow> Inl e
               | Inr tree7 \<Rightarrow>
                  (case hi of
                     None \<Rightarrow> Inl NullPointer
                   | Some h \<Rightarrow>
                      CompileFrom h False
                        (tree7[length tree + 10 := Bits (of_nat (length tree7 div 4))])
                        (of_nat (length tree div 4)) False)))"
proof (cases "length tree + 8 \<le> 2 ^ 31")
  case False
  then show ?thesis by (simp add: PushElements_def Let_def)
next
  case True
  have 1: "unat (of_nat (length tree + 9) :: 32 word) = length tree + 9"
    by (rule unat_loc) (use True in simp)
  have 2: "unat (of_nat (length tree + 10) :: 32 word) = length tree + 10"
    by (rule unat_loc) (use True in simp)
  have 3: "unat (of_nat (Suc (Suc (Suc (Suc (Suc (Suc (Suc (Suc (Suc (length tree)))))))))) :: 32 word)
             = length tree + 9"
    using 1 by (simp add: add.commute)
  have 4: "unat (of_nat (Suc (Suc (Suc (Suc (Suc (Suc (Suc (Suc (Suc (Suc (length tree))))))))))) :: 32 word)
             = length tree + 10"
    using 2 by (simp add: add.commute)
  have f: "(if isRoot then (if isLower then IS_LOWER else 0) OR IS_ROOT
            else (if isLower then IS_LOWER else 0)) = node_flags isRoot isLower []"
    by (simp add: node_flags_def)
  have c: "12 + length tree = length tree + 12" by simp
  show ?thesis
    using True
    by (simp add: PushElements_def Let_def f RGBA_ELEMS_def 3 4 c list_update_append
          del: of_nat_Suc of_nat_add cong: option.case_cong sum.case_cong)
qed


declare CompileFrom.simps [simp del]

subsection \<open>CompileFrom appends the layout\<close>

lemma CompileFrom_layout:
  "CompileFrom n isRoot tree parentAddr isLower = Inr tree' \<Longrightarrow>
   tree' = tree @ layout n isRoot (length tree) parentAddr isLower"
proof (induction n arbitrary: isRoot tree parentAddr isLower tree')
  case (BoundingBox x0 x1 y0 y1 z0 z1 lo hi ps)
  show ?case
  proof (cases "ps = []")
    case False
    then show ?thesis
      using BoundingBox.prems
        CompileFrom_leaf [OF False, of x0 x1 y0 y1 z0 z1 lo hi isRoot tree parentAddr isLower]
      by simp
  next
    case True
    let ?t6 = "tree @ [Flt x0, Flt y0, Flt z0, RGBA_PAD, Flt x1, Flt y1, Flt z1, RGBA_PAD,
                       Bits (node_flags isRoot isLower []),
                       Bits (of_nat ((length tree + 12) div 4)), Flt 0, Bits parentAddr]"
    let ?a = "of_nat (length tree div 4) :: 32 word"
    note c = BoundingBox.prems [unfolded True CompileFrom_internal]
    from c obtain l where lo: "lo = Some l"
      by (cases lo) (simp_all split: if_splits)
    from c lo obtain t7 where c1: "CompileFrom l False ?t6 ?a True = Inr t7"
      by (cases "CompileFrom l False ?t6 ?a True") (simp_all split: if_splits)
    from c lo c1 obtain h where hi: "hi = Some h"
      by (cases hi) (simp_all split: if_splits)
    from c lo c1 hi have c2:
      "CompileFrom h False (t7[length tree + 10 := Bits (of_nat (length t7 div 4))]) ?a False = Inr tree'"
      by (simp split: if_splits)
    have l6: "length ?t6 = length tree + 12" by simp
    have "t7 = ?t6 @ layout l False (length ?t6) ?a True"
      using lo by (intro BoundingBox.IH(1) [of l, OF _ c1]) simp
    then have t7: "t7 = ?t6 @ layout l False (length tree + 12) ?a True"
      unfolding l6 .
    have len7: "length t7 = length tree + 12 + slots l"
      by (subst t7) (simp add: length_layout)
    have t8: "t7[length tree + 10 := Bits (of_nat (length t7 div 4))] =
              tree @ [Flt x0, Flt y0, Flt z0, RGBA_PAD, Flt x1, Flt y1, Flt z1, RGBA_PAD,
                       Bits (node_flags isRoot isLower []),
                       Bits (of_nat ((length tree + 12) div 4)),
                       Bits (of_nat ((length tree + 12 + slots l) div 4)), Bits parentAddr]
                   @ layout l False (length tree + 12) ?a True"
      unfolding len7 by (subst t7) (simp add: list_update_append)
    have "tree' = t7[length tree + 10 := Bits (of_nat (length t7 div 4))]
                  @ layout h False (length (t7[length tree + 10 := Bits (of_nat (length t7 div 4))])) ?a False"
      using hi by (intro BoundingBox.IH(2) [of h, OF _ c2]) simp
    then have "tree' = t7[length tree + 10 := Bits (of_nat (length t7 div 4))]
                  @ layout h False (length tree + 12 + slots l) ?a False"
      unfolding length_list_update len7 .
    then show ?thesis
      unfolding t8 using True lo hi by simp
  qed
qed

lemma CompileFrom_compilable:
  "CompileFrom n isRoot tree parentAddr isLower = Inr tree' \<Longrightarrow> compilable n"
proof (induction n arbitrary: isRoot tree parentAddr isLower tree')
  case (BoundingBox x0 x1 y0 y1 z0 z1 lo hi ps)
  show ?case
  proof (cases "ps = []")
    case False
    then show ?thesis by simp
  next
    case True
    let ?t6 = "tree @ [Flt x0, Flt y0, Flt z0, RGBA_PAD, Flt x1, Flt y1, Flt z1, RGBA_PAD,
                       Bits (node_flags isRoot isLower []),
                       Bits (of_nat ((length tree + 12) div 4)), Flt 0, Bits parentAddr]"
    let ?a = "of_nat (length tree div 4) :: 32 word"
    note c = BoundingBox.prems [unfolded True CompileFrom_internal]
    from c obtain l where lo: "lo = Some l"
      by (cases lo) (simp_all split: if_splits)
    from c lo obtain t7 where c1: "CompileFrom l False ?t6 ?a True = Inr t7"
      by (cases "CompileFrom l False ?t6 ?a True") (simp_all split: if_splits)
    from c lo c1 obtain h where hi: "hi = Some h"
      by (cases hi) (simp_all split: if_splits)
    from c lo c1 hi have c2:
      "CompileFrom h False (t7[length tree + 10 := Bits (of_nat (length t7 div 4))]) ?a False = Inr tree'"
      by (simp split: if_splits)
    have "compilable l" using lo by (intro BoundingBox.IH(1) [of l, OF _ c1]) simp
    moreover have "compilable h" using hi by (intro BoundingBox.IH(2) [of h, OF _ c2]) simp
    ultimately show ?thesis using lo hi by simp
  qed
qed

lemma Compile_layout:
  assumes "Compile bvh tree = Inr tree'"
  obtains node where "Root bvh = Some node" "compilable node"
    "tree' = tree @ layout node True (length tree) 0 False"
proof -
  from assms obtain node where r: "Root bvh = Some node"
    and c: "CompileFrom node True tree 0 False = Inr tree'"
    by (cases "Root bvh") (simp_all add: Compile_def)
  from c have "compilable node" by (rule CompileFrom_compilable)
  moreover from c have "tree' = tree @ layout node True (length tree) 0 False"
    by (rule CompileFrom_layout)
  ultimately show ?thesis using r that by blast
qed


subsection \<open>Reading the layout\<close>

lemma uint_at_append:
  "i < length xs \<Longrightarrow> uint_at (pre @ xs @ post) (length pre + i) = uint_at xs i"
  by (simp add: uint_at_def nth_append)

lemma take_drop_append:
  "k \<le> length xs \<Longrightarrow> take k (drop (length pre) (pre @ xs @ post)) = take k xs"
  by simp

lemma layout_info:
  "uint_at (layout n isRoot pos parentAddr isLower) 8 = Some (node_flags isRoot isLower (primitives n))"
  "uint_at (layout n isRoot pos parentAddr isLower) 11 = Some parentAddr"
  "primitives n = [] \<Longrightarrow> uint_at (layout n isRoot pos parentAddr isLower) 9 = Some (of_nat ((pos + 12) div 4))"
  "primitives n = [] \<Longrightarrow> uint_at (layout n isRoot pos parentAddr isLower) 10 =
      Some (of_nat ((pos + 12 + (case lower n of None \<Rightarrow> 0 | Some l \<Rightarrow> slots l)) div 4))"
  "take 8 (layout n isRoot pos parentAddr isLower) = box_quads n"
  by (cases n; simp add: uint_at_def box_quads_def)+


declare layout.simps [simp del]

lemma layout_internal:
  "layout (BoundingBox x0 x1 y0 y1 z0 z1 (Some l) (Some h) []) isRoot pos parentAddr isLower =
     ([Flt x0, Flt y0, Flt z0, RGBA_PAD, Flt x1, Flt y1, Flt z1, RGBA_PAD,
       Bits (node_flags isRoot isLower []), Bits (of_nat ((pos + 12) div 4)),
       Bits (of_nat ((pos + 12 + slots l) div 4)), Bits parentAddr]
      @ layout l False (pos + 12) (of_nat (pos div 4)) True)
     @ layout h False (pos + 12 + slots l) (of_nat (pos div 4)) False"
  by (simp add: layout.simps)

lemma header_reads:
  assumes "length pre = pos" "i < 12"
  shows "uint_at (pre @ layout n isRoot pos parentAddr isLower @ post) (pos + i) =
           uint_at (layout n isRoot pos parentAddr isLower) i"
proof -
  have "i < length (layout n isRoot pos parentAddr isLower)"
    using slots_ge [of n] assms(2) by (simp add: length_layout)
  then show ?thesis
    unfolding assms(1) [symmetric] by (rule uint_at_append)
qed

lemma header_box:
  assumes "length pre = pos"
  shows "take 8 (drop pos (pre @ layout n isRoot pos parentAddr isLower @ post)) = box_quads n"
proof -
  have "8 \<le> length (layout n isRoot pos parentAddr isLower)"
    using slots_ge [of n] by (simp add: length_layout)
  then have "take 8 (drop (length pre) (pre @ layout n isRoot pos parentAddr isLower @ post))
               = take 8 (layout n isRoot pos parentAddr isLower)"
    by (rule take_drop_append)
  then show ?thesis unfolding assms layout_info(5) .
qed

lemma compilable_induct [consumes 1, case_names Leaf Internal]:
  assumes c: "compilable n"
    and leaf: "\<And>x0 x1 y0 y1 z0 z1 lo hi ps. ps \<noteq> [] \<Longrightarrow> P (BoundingBox x0 x1 y0 y1 z0 z1 lo hi ps)"
    and internal: "\<And>x0 x1 y0 y1 z0 z1 l h. compilable l \<Longrightarrow> compilable h \<Longrightarrow> P l \<Longrightarrow> P h \<Longrightarrow>
                     P (BoundingBox x0 x1 y0 y1 z0 z1 (Some l) (Some h) [])"
  shows "P n"
  using c
proof (induction n)
  case (BoundingBox x0 x1 y0 y1 z0 z1 lo hi ps)
  show ?case
  proof (cases "ps = []")
    case False
    then show ?thesis by (rule leaf)
  next
    case True
    with BoundingBox.prems obtain l h where lo: "lo = Some l" and hi: "hi = Some h"
      and cl: "compilable l" and ch: "compilable h"
      by (cases lo; cases hi) simp_all
    have "P l" using BoundingBox.IH(1) [of l] lo cl by simp
    moreover have "P h" using BoundingBox.IH(2) [of h] hi ch by simp
    ultimately show ?thesis unfolding True lo hi using cl ch by (intro internal)
  qed
qed

lemma shaped_induct [consumes 1, case_names Leaf Internal]:
  assumes c: "shaped n"
    and leaf: "\<And>x0 x1 y0 y1 z0 z1 ps. ps \<noteq> [] \<Longrightarrow> P (BoundingBox x0 x1 y0 y1 z0 z1 None None ps)"
    and internal: "\<And>x0 x1 y0 y1 z0 z1 l h. shaped l \<Longrightarrow> shaped h \<Longrightarrow> P l \<Longrightarrow> P h \<Longrightarrow>
                     P (BoundingBox x0 x1 y0 y1 z0 z1 (Some l) (Some h) [])"
  shows "P n"
  using c
proof (induction n)
  case (BoundingBox x0 x1 y0 y1 z0 z1 lo hi ps)
  let ?n = "BoundingBox x0 x1 y0 y1 z0 z1 lo hi ps"
  have "is_leaf ?n \<or> is_internal ?n"
    using BoundingBox.prems by (simp add: shaped_def)
  then show ?case
  proof
    assume "is_leaf ?n"
    then show ?thesis by (auto simp add: is_leaf_def intro: leaf)
  next
    assume "is_internal ?n"
    then obtain l h where lo: "lo = Some l" and hi: "hi = Some h" and ps: "ps = []"
      by (auto simp add: is_internal_def)
    have sl: "shaped l" and sh: "shaped h"
      using BoundingBox.prems lo hi by (simp_all add: shaped_def)
    have "P l" using BoundingBox.IH(1) [of l] lo sl by simp
    moreover have "P h" using BoundingBox.IH(2) [of h] hi sh by simp
    ultimately show ?thesis unfolding ps lo hi using sl sh by (intro internal)
  qed
qed

lemma compilable_shaped:
  assumes "compilable n"
    and "\<forall>m \<in> set (nodes n). primitives m \<noteq> [] \<longrightarrow> lower m = None \<and> higher m = None"
  shows "shaped n"
  using assms
proof (induction n rule: compilable_induct)
  case (Leaf x0 x1 y0 y1 z0 z1 lo hi ps)
  then show ?case by (simp add: shaped_def is_leaf_def)
next
  case (Internal x0 x1 y0 y1 z0 z1 l h)
  then show ?case by (auto simp add: shaped_def is_internal_def)
qed


subsection \<open>When CompileFrom succeeds\<close>

text \<open>
  On a tree in which every node without primitives has two children, and with room for
  the records below the bound of the assertion, \<^verbatim>\<open>CompileFrom\<close> returns a buffer.
\<close>

lemma CompileFrom_succeeds:
  assumes "compilable n" "length tree + slots n \<le> 2 ^ 31"
  shows "\<exists>tree'. CompileFrom n isRoot tree parentAddr isLower = Inr tree'"
  using assms
proof (induction n arbitrary: tree isRoot parentAddr isLower rule: compilable_induct)
  case (Leaf x0 x1 y0 y1 z0 z1 lo hi ps)
  then show ?case by (simp add: CompileFrom_leaf)
next
  case (Internal x0 x1 y0 y1 z0 z1 l h)
  let ?t6 = "tree @ [Flt x0, Flt y0, Flt z0, RGBA_PAD, Flt x1, Flt y1, Flt z1, RGBA_PAD,
                     Bits (node_flags isRoot isLower []),
                     Bits (of_nat ((length tree + 12) div 4)), Flt 0, Bits parentAddr]"
  let ?a = "of_nat (length tree div 4) :: 32 word"
  have sl: "slots (BoundingBox x0 x1 y0 y1 z0 z1 (Some l) (Some h) []) = 12 + slots l + slots h"
    by simp
  have l6: "length ?t6 = length tree + 12" by simp
  have "length ?t6 + slots l \<le> 2 ^ 31"
    unfolding l6 using Internal.prems sl by simp
  then obtain t7 where c1: "CompileFrom l False ?t6 ?a True = Inr t7"
    using Internal.IH(1) by blast
  have "t7 = ?t6 @ layout l False (length ?t6) ?a True"
    using c1 by (rule CompileFrom_layout)
  then have len7: "length t7 = length tree + 12 + slots l"
    by (simp add: length_layout)
  let ?t8 = "t7[length tree + 10 := Bits (of_nat (length t7 div 4))]"
  have "length ?t8 + slots h \<le> 2 ^ 31"
    using Internal.prems sl len7 by simp
  then obtain t9 where c2: "CompileFrom h False ?t8 ?a False = Inr t9"
    using Internal.IH(2) by blast
  have "length tree + 8 \<le> 2 ^ 31" using Internal.prems sl by simp
  then show ?case
    using c1 c2 by (simp add: CompileFrom_internal)
qed

lemma Compile_succeeds:
  assumes "prims \<noteq> []" "2 \<le> unat minPrimitivesPerNode"
    and "length tree
           + slots (fst (Subdivide fp prims 0 (length prims) 0 maxNumLevels minPrimitivesPerNode))
         \<le> 2 ^ 31"
  shows "\<exists>tree'. Compile (fst (BoundingVolumesHierarchy fp prims maxNumLevels minPrimitivesPerNode))
                    tree = Inr tree'"
proof -
  let ?t = "fst (Subdivide fp prims 0 (length prims) 0 maxNumLevels minPrimitivesPerNode)"
  have r: "Root (fst (BoundingVolumesHierarchy fp prims maxNumLevels minPrimitivesPerNode)) = Some ?t"
    by (cases "Subdivide fp prims 0 (length prims) 0 maxNumLevels minPrimitivesPerNode")
       (simp add: BoundingVolumesHierarchy_def)
  have "shaped ?t"
    unfolding shaped_def using assms(1,2) by (intro shape_Subdivide) simp_all
  then have "compilable ?t"
    by (induction rule: shaped_induct) simp_all
  then show ?thesis
    using assms(3) r by (simp add: Compile_def CompileFrom_succeeds)
qed

subsection \<open>Addresses\<close>

lemma linked_layout:
  assumes "compilable n" "length pre = pos" "4 dvd pos" "pos + slots n < 2 ^ 32"
    and "case parent of None \<Rightarrow> True | Some p \<Rightarrow> unat parentAddr = p"
  shows "linked (pre @ layout n isRoot pos parentAddr isLower @ post) n (pos div 4) parent"
  using assms
proof (induction n arbitrary: pre pos post isRoot parentAddr isLower parent rule: compilable_induct)
  case (Leaf x0 x1 y0 y1 z0 z1 lo hi ps)
  have q: "4 * (pos div 4) = pos" using Leaf.prems(2) by simp
  show ?case
    unfolding linked.simps q header_box [OF Leaf.prems(1)]
    using Leaf.hyps Leaf.prems(4)
    by (simp add: header_reads [OF Leaf.prems(1)] layout_info split: option.splits)
next
  case (Internal x0 x1 y0 y1 z0 z1 l h)
  let ?n = "BoundingBox x0 x1 y0 y1 z0 z1 (Some l) (Some h) []"
  let ?B = "pre @ layout ?n isRoot pos parentAddr isLower @ post"
  have q: "4 * (pos div 4) = pos" using Internal.prems(2) by simp
  have sl: "slots ?n = 12 + slots l + slots h" by simp
  have up: "unat (of_nat (pos div 4) :: 32 word) = pos div 4"
    using Internal.prems(3) by (intro unat_loc) simp
  have a1: "unat (of_nat ((pos + 12) div 4) :: 32 word) = (pos + 12) div 4"
    using Internal.prems(3) sl by (intro unat_loc) simp
  have a2: "unat (of_nat ((pos + 12 + slots l) div 4) :: 32 word) = (pos + 12 + slots l) div 4"
    using Internal.prems(3) sl by (intro unat_loc) simp
  let ?head = "[Flt x0, Flt y0, Flt z0, RGBA_PAD, Flt x1, Flt y1, Flt z1, RGBA_PAD,
     Bits (node_flags isRoot isLower []), Bits (of_nat ((pos + 12) div 4)),
     Bits (of_nat ((pos + 12 + slots l) div 4)), Bits parentAddr]"
  have B1: "?B = (pre @ ?head) @ layout l False (pos + 12) (of_nat (pos div 4)) True
                 @ (layout h False (pos + 12 + slots l) (of_nat (pos div 4)) False @ post)"
    unfolding layout_internal by simp
  have B2: "?B = (pre @ ?head @ layout l False (pos + 12) (of_nat (pos div 4)) True)
                 @ layout h False (pos + 12 + slots l) (of_nat (pos div 4)) False @ post"
    unfolding layout_internal by simp
  have "linked ((pre @ ?head) @ layout l False (pos + 12) (of_nat (pos div 4)) True
                 @ (layout h False (pos + 12 + slots l) (of_nat (pos div 4)) False @ post))
          l ((pos + 12) div 4) (Some (pos div 4))"
    using Internal.prems(1,2,3) sl up
    by (intro Internal.IH(1)) simp_all
  then have L: "linked ?B l ((pos + 12) div 4) (Some (pos div 4))"
    unfolding B1 [symmetric] .
  have "linked ((pre @ ?head @ layout l False (pos + 12) (of_nat (pos div 4)) True)
                 @ layout h False (pos + 12 + slots l) (of_nat (pos div 4)) False @ post)
          h ((pos + 12 + slots l) div 4) (Some (pos div 4))"
    using Internal.prems(1,2,3) sl up dvd_slots [of l]
    by (intro Internal.IH(2)) (simp_all add: length_layout)
  then have H: "linked ?B h ((pos + 12 + slots l) div 4) (Some (pos div 4))"
    unfolding B2 [symmetric] .
  have r9: "uint_at ?B (pos + 9) = Some (of_nat ((pos + 12) div 4))"
    by (simp add: header_reads [OF Internal.prems(1)] layout_info)
  have r10: "uint_at ?B (pos + 10) = Some (of_nat ((pos + 12 + slots l) div 4))"
    by (simp add: header_reads [OF Internal.prems(1)] layout_info)
  have r11: "uint_at ?B (pos + 11) = Some parentAddr"
    by (simp add: header_reads [OF Internal.prems(1)] layout_info)
  have p1: "(pos + 12) div 4 = pos div 4 + 3"
    using Internal.prems(2) by (elim dvdE) simp
  have p2: "(pos + 12 + slots l) div 4 = pos div 4 + 3 + slots l div 4"
    using Internal.prems(2) dvd_slots [of l] by (elim dvdE) simp
  have a1': "unat (of_nat ((pos + 12) div 4) :: 32 word) = pos div 4 + 3"
    using a1 p1 by simp
  have a2': "unat (of_nat ((pos + 12 + slots l) div 4) :: 32 word) = pos div 4 + 3 + slots l div 4"
    using a2 p2 by simp
  have L': "linked ?B l (pos div 4 + 3) (Some (pos div 4))"
    using L p1 by simp
  have H': "linked ?B h (pos div 4 + 3 + slots l div 4) (Some (pos div 4))"
    using H p2 by simp
  show ?case
    unfolding linked.simps q header_box [OF Internal.prems(1)]
    using L' H' Internal.prems(4)
    by (simp add: r9 r10 r11 a1' a2' split: option.splits)
qed

subsection \<open>Flags\<close>

lemma bit_flag:
  "bit (push_bit m (1 :: 32 word)) n \<longleftrightarrow> n = m \<and> m < 32"
  unfolding bit_push_bit_iff bit_1_iff by (auto simp: possible_bit_def)

lemma LEAF_bit: "bit LEAF n \<longleftrightarrow> n = 31"
  unfolding LEAF_def bit_flag by simp

lemma IS_LOWER_bit: "bit IS_LOWER n \<longleftrightarrow> n = 30"
  unfolding IS_LOWER_def bit_flag by simp

lemma IS_ROOT_bit: "bit IS_ROOT n \<longleftrightarrow> n = 29"
  unfolding IS_ROOT_def bit_flag by simp

lemma FLAGS_MASK_bit: "bit FLAGS_MASK n \<longleftrightarrow> n = 29 \<or> n = 30 \<or> n = 31"
  unfolding FLAGS_MASK_def bit_or_iff LEAF_bit IS_LOWER_bit IS_ROOT_bit by auto

lemma node_flags_bit:
  "bit (node_flags isRoot isLower ps) n \<longleftrightarrow>
     (n = 31 \<and> ps \<noteq> []) \<or> (n = 30 \<and> isLower) \<or> (n = 29 \<and> isRoot)
     \<or> (n < 29 \<and> ps \<noteq> [] \<and> bit (length ps) n)"
  unfolding node_flags_def
  by (auto simp add: bit_or_iff bit_and_iff bit_not_iff LEAF_bit IS_LOWER_bit IS_ROOT_bit
        FLAGS_MASK_bit bit_of_nat_iff possible_bit_def)

lemma not_bit_small:
  fixes k :: nat
  assumes "k < 2 ^ m" "m \<le> n"
  shows "\<not> bit k n"
proof -
  have "(2::nat) ^ m \<le> 2 ^ n" using assms(2) by (intro power_increasing) simp_all
  with assms(1) have "k < 2 ^ n" by (rule less_le_trans)
  then show ?thesis by (simp add: bit_iff_odd)
qed

lemma node_flags_count:
  assumes "length ps < 2 ^ 29"
  shows "unat (take_bit 29 (node_flags isRoot isLower ps)) = length ps"
proof -
  have small: "n < 29" if "bit (length ps) n" for n
    using not_bit_small [OF assms, of n] that by (cases "29 \<le> n") auto
  have "take_bit 29 (node_flags isRoot isLower ps) = (of_nat (length ps) :: 32 word)"
  proof (rule bit_word_eqI)
    fix n assume "n < LENGTH(32)"
    then show "bit (take_bit 29 (node_flags isRoot isLower ps)) n
                 \<longleftrightarrow> bit (of_nat (length ps) :: 32 word) n"
      using small [of n]
      by (cases "ps = []") (auto simp add: bit_take_bit_iff node_flags_bit bit_of_nat_iff)
  qed
  moreover have "unat (of_nat (length ps) :: 32 word) = length ps"
    using assms by (intro unat_loc) simp
  ultimately show ?thesis by simp
qed

lemma flagged_layout:
  assumes "shaped n" "length pre = pos" "4 dvd pos" "pos + slots n < 2 ^ 32"
  shows "flagged (pre @ layout n isRoot pos parentAddr isLower @ post) n (pos div 4) isLower isRoot"
  using assms
proof (induction n arbitrary: pre pos post isRoot parentAddr isLower rule: shaped_induct)
  case (Leaf x0 x1 y0 y1 z0 z1 ps)
  have q: "4 * (pos div 4) = pos" using Leaf.prems(2) by simp
  have "8 * length ps \<le> slots (BoundingBox x0 x1 y0 y1 z0 z1 None None ps)"
    using le_stored [of ps] Leaf.hyps by simp
  then have "length ps < 2 ^ 29" using Leaf.prems(3) by simp
  then have cnt: "unat (take_bit 29 (node_flags isRoot isLower ps)) = length ps"
    by (rule node_flags_count)
  show ?case
    unfolding flagged.simps q
    using Leaf.hyps cnt
    by (simp add: header_reads [OF Leaf.prems(1)] layout_info node_flags_bit)
next
  case (Internal x0 x1 y0 y1 z0 z1 l h)
  let ?n = "BoundingBox x0 x1 y0 y1 z0 z1 (Some l) (Some h) []"
  let ?B = "pre @ layout ?n isRoot pos parentAddr isLower @ post"
  have q: "4 * (pos div 4) = pos" using Internal.prems(2) by simp
  have sl: "slots ?n = 12 + slots l + slots h" by simp
  have a1: "unat (of_nat ((pos + 12) div 4) :: 32 word) = (pos + 12) div 4"
    using Internal.prems(3) sl by (intro unat_loc) simp
  have a2: "unat (of_nat ((pos + 12 + slots l) div 4) :: 32 word) = (pos + 12 + slots l) div 4"
    using Internal.prems(3) sl by (intro unat_loc) simp
  let ?head = "[Flt x0, Flt y0, Flt z0, RGBA_PAD, Flt x1, Flt y1, Flt z1, RGBA_PAD,
     Bits (node_flags isRoot isLower []), Bits (of_nat ((pos + 12) div 4)),
     Bits (of_nat ((pos + 12 + slots l) div 4)), Bits parentAddr]"
  have B1: "?B = (pre @ ?head) @ layout l False (pos + 12) (of_nat (pos div 4)) True
                 @ (layout h False (pos + 12 + slots l) (of_nat (pos div 4)) False @ post)"
    unfolding layout_internal by simp
  have B2: "?B = (pre @ ?head @ layout l False (pos + 12) (of_nat (pos div 4)) True)
                 @ layout h False (pos + 12 + slots l) (of_nat (pos div 4)) False @ post"
    unfolding layout_internal by simp
  have "flagged ((pre @ ?head) @ layout l False (pos + 12) (of_nat (pos div 4)) True
                 @ (layout h False (pos + 12 + slots l) (of_nat (pos div 4)) False @ post))
          l ((pos + 12) div 4) True False"
    using Internal.prems(1,2,3) sl
    by (intro Internal.IH(1)) simp_all
  then have L: "flagged ?B l ((pos + 12) div 4) True False"
    unfolding B1 [symmetric] .
  have "flagged ((pre @ ?head @ layout l False (pos + 12) (of_nat (pos div 4)) True)
                 @ layout h False (pos + 12 + slots l) (of_nat (pos div 4)) False @ post)
          h ((pos + 12 + slots l) div 4) False False"
    using Internal.prems(1,2,3) sl dvd_slots [of l]
    by (intro Internal.IH(2)) (simp_all add: length_layout)
  then have H: "flagged ?B h ((pos + 12 + slots l) div 4) False False"
    unfolding B2 [symmetric] .
  have r8: "uint_at ?B (pos + 8) = Some (node_flags isRoot isLower [])"
    by (simp add: header_reads [OF Internal.prems(1)] layout_info)
  have r9: "uint_at ?B (pos + 9) = Some (of_nat ((pos + 12) div 4))"
    by (simp add: header_reads [OF Internal.prems(1)] layout_info)
  have r10: "uint_at ?B (pos + 10) = Some (of_nat ((pos + 12 + slots l) div 4))"
    by (simp add: header_reads [OF Internal.prems(1)] layout_info)
  have cnt: "unat (take_bit 29 (node_flags isRoot isLower [])) = 0"
    using node_flags_count [of "[]" isRoot isLower] by simp
  show ?case
    unfolding flagged.simps q
    using L H cnt
    by (simp add: r8 r9 r10 a1 a2 node_flags_bit)
qed


section \<open>The examples\<close>

lemma three_balls_root:
  "fst (Subdivide exact three_balls 0 (length three_balls) 0 1024 2) = three_balls_tree"
  by code_simp

lemma three_balls_BoundingVolumesHierarchy:
  "BoundingVolumesHierarchy exact three_balls 1024 2 =
     (\<lparr>Root = Some three_balls_tree\<rparr>, [ball 0, ball 4, ball 8])"
  by code_simp

lemma three_balls_CompileFrom:
  "CompileFrom three_balls_tree True [] 0 False = Inr three_balls_compiled"
  by (simp add: three_balls_tree_def three_balls_compiled_def PushElements_def Let_def
        RGBA_ELEMS_def RGBA_PAD_def StoreIntoBVH_def ball_def CompileFrom.simps
        IS_ROOT_def IS_LOWER_def LEAF_def FLAGS_MASK_def)

lemma three_balls_Compile:
  "Compile (fst (BoundingVolumesHierarchy exact three_balls 1024 2)) [] = Inr three_balls_compiled"
  by (simp add: three_balls_BoundingVolumesHierarchy Compile_def three_balls_CompileFrom)

lemma three_balls_Compile_appended:
  "Compile \<lparr>Root = Some three_balls_tree\<rparr> [RGBA_PAD, RGBA_PAD, RGBA_PAD, RGBA_PAD]
     = Inr three_balls_appended"
  by (simp add: Compile_def three_balls_tree_def three_balls_appended_def PushElements_def Let_def
        RGBA_ELEMS_def RGBA_PAD_def StoreIntoBVH_def ball_def CompileFrom.simps
        IS_ROOT_def IS_LOWER_def LEAF_def FLAGS_MASK_def)

section \<open>The properties\<close>

subsection \<open>C1: decoders and encoders of the primitives\<close>

text \<open>
  For these three kinds the decoder that \<^verbatim>\<open>Print\<close> selects by the type tag consumes
  exactly the slots that the encoder appended.
\<close>

lemma PrintBVH_consumes:
  assumes "GetType s \<noteq> CONE"
  shows "map_option snd (PrintBVH (GetType s) (StoreDataIntoBVH s data) (out, length data)) =
           Some (length (StoreDataIntoBVH s data))"
proof (cases s)
  case (Sphere c r)
  obtain cx cy cz where "c = Vec3f cx cy cz" by (cases c)
  with Sphere show ?thesis
    by (simp only: GetType.simps PrintBVH.simps Sphere_PrintBVH_StoreDataIntoBVH option.map_sel
          option.map snd_conv)
next
  case (Disc c n r)
  obtain cx cy cz nx ny nz where "c = Vec3f cx cy cz" "n = Vec3f nx ny nz" by (cases c; cases n)
  with Disc show ?thesis
    by (simp only: GetType.simps PrintBVH.simps Disc_PrintBVH_StoreDataIntoBVH option.map snd_conv)
next
  case (Triangle a b c)
  obtain ax ay az bx "by" bz cx cy cz
    where "a = Vec3f ax ay az" "b = Vec3f bx by bz" "c = Vec3f cx cy cz"
    by (cases a; cases b; cases c)
  with Triangle show ?thesis
    by (simp only: GetType.simps PrintBVH.simps Triangle_PrintBVH_StoreDataIntoBVH option.map
          snd_conv)
next
  case (Cone c1 c2 r1 r2 ua al wc cb dc)
  with assms show ?thesis by simp
qed

text \<open>
  Claim C1 says that for each of the four kinds of primitive the decoder consumes as many
  slots as the encoder produced, reading the members in the order in which they were
  stored. For the cone the code does otherwise. The encoder of the cone appends 16 slots.
  The decoder run on exactly these 16 slots reads beyond the last one; with four more
  slots behind them (the type tag quad of a following primitive) it stops 20 slots after
  its start, and what it prints as the fourth to ninth number (labelled Radius1, Radius2,
  AxisLen, A, CosB, DotAxC1 in the source) are the slots 12 to 17: WidthCoeff, CosB,
  DotAxC1, the padding, and two slots that do not belong to the cone.
\<close>

theorem C1_Cone_PrintBVH_overruns:
  "length (StoreDataIntoBVH unit_cone []) = 16
   \<and> Cone_PrintBVH (StoreDataIntoBVH unit_cone []) ([], 0) = None
   \<and> map_option snd
         (Cone_PrintBVH (StoreDataIntoBVH unit_cone [] @ [Bits 2, RGBA_PAD, RGBA_PAD, RGBA_PAD])
            ([], 0)) = Some 20
   \<and> map_option (\<lambda>st. drop 22 (fst st))
         (Cone_PrintBVH (StoreDataIntoBVH unit_cone [] @ [Bits 2, RGBA_PAD, RGBA_PAD, RGBA_PAD])
            ([], 0)) =
       Some [Num (Flt 0), Str '', '', Num (Flt 0), Str '', '', Num (Flt 0), Str '', '',
             Num RGBA_PAD, Str '', '', Num (Bits 2), Str '', '', Num RGBA_PAD, Str '' }'']"
  by (simp add: Cone_PrintBVH_def unit_cone_def put_def put_next_def skip_def nth_append)


subsection \<open>C2: no failure on well-formed input\<close>

text \<open>
  Claim C2 says that tree construction and compilation complete for every well-formed
  input, the empty list of primitives and an empty range made by a subdivision
  included, and that no dereference of a null child can be reached. \<^verbatim>\<open>Subdivide\<close>
  completes for every input. \<^verbatim>\<open>Compile\<close> does not: for the empty list the root that the
  constructor builds has no primitives and no children, \<^verbatim>\<open>CompileFrom\<close> takes a node
  without primitives for an internal node, and it dereferences the null pointer
  \<^verbatim>\<open>node.lower\<close>. This happens for every choice of the two parameters and of the
  rounding. It happens as well for two spheres at the same place with
  \<open>maxNumLevels = 2\<close> and \<open>minPrimitivesPerNode = 1\<close>, where the range of two is
  split into a range of two and an empty one.
\<close>

theorem C2_Compile_dereferences_null:
  "Compile (fst (BoundingVolumesHierarchy fp [] maxNumLevels minPrimitivesPerNode)) []
     = Inl NullPointer
   \<and> Compile (fst (BoundingVolumesHierarchy exact [ball 0, ball 0] 2 1)) [] = Inl NullPointer"
proof
  have "Subdivide fp [] 0 0 0 maxNumLevels minPrimitivesPerNode =
          (node_of start_extent None None [], [])"
    by (simp add: Subdivide_leaf bounds_loop_empty range_of_def)
  then show "Compile (fst (BoundingVolumesHierarchy fp [] maxNumLevels minPrimitivesPerNode)) []
               = Inl NullPointer"
    by (simp add: Compile_def BoundingVolumesHierarchy_def start_extent_def CompileFrom_internal)
next
  have "fst (BoundingVolumesHierarchy exact [ball 0, ball 0] 2 1) =
     \<lparr>Root = Some (BoundingBox (- 1) 1 (- 1) 1 (- 1) 1
       (Some (BoundingBox (- 1) 1 (- 1) 1 (- 1) 1 None None [ball 0, ball 0]))
       (Some (BoundingBox far (- far) far (- far) far (- far) None None [])) [])\<rparr>"
    by code_simp
  then show "Compile (fst (BoundingVolumesHierarchy exact [ball 0, ball 0] 2 1)) [] = Inl NullPointer"
    by (simp add: Compile_def PushElements_def Let_def RGBA_ELEMS_def RGBA_PAD_def
          StoreIntoBVH_def ball_def IS_ROOT_def IS_LOWER_def LEAF_def FLAGS_MASK_def
          CompileFrom.simps)
qed

subsection \<open>C3: every node is a leaf or an internal node\<close>

text \<open>
  Claim C3 says that in every tree that \<^verbatim>\<open>Subdivide\<close> produces, for any list of
  primitives, any \<open>maxLevels \<ge> 1\<close> and any \<open>minPrimitivesPerNode \<ge> 1\<close>, every node
  is either a leaf with primitives and without children or an internal node without
  primitives and with two children. This fails for the empty list, whose tree is one node
  without primitives and without children, and it fails with
  \<open>minPrimitivesPerNode = 1\<close> for two spheres at the same place, where the higher child
  of the root is such a node: the step that moves the split index away from the ends of
  the range is taken for ranges of more than two primitives only.
\<close>

theorem C3_counterexample:
  "\<not> shaped (fst (Subdivide exact [] 0 0 0 1024 2))
   \<and> \<not> shaped (fst (Subdivide exact [ball 0, ball 0] 0 2 0 2 1))"
  by code_simp

text \<open>
  Claim C3 as amended: for any non-empty list of primitives, any \<open>maxLevels\<close> and any
  \<open>minPrimitivesPerNode \<ge> 2\<close>, every node of the tree that \<^verbatim>\<open>Subdivide\<close> produces is
  either a leaf with primitives and without children or an internal node without
  primitives and with two children.
\<close>

theorem C3_leaf_or_internal:
  assumes "prims \<noteq> []" "2 \<le> unat minPrimitivesPerNode"
  shows "shaped (fst (Subdivide fp prims 0 (length prims) 0 maxNumLevels minPrimitivesPerNode))"
  unfolding shaped_def using assms by (intro shape_Subdivide) simp_all

theorem C3_witness:
  "three_balls \<noteq> [] \<and> 2 \<le> unat (2 :: 32 word)
   \<and> shaped (fst (Subdivide exact three_balls 0 (length three_balls) 0 1024 2))"
  using C3_leaf_or_internal [of three_balls 2 exact 1024] by (simp add: three_balls_def)

subsection \<open>C4: boxes\<close>





subsection \<open>C5: addresses\<close>

text \<open>
  Claim C5: in every compiled buffer, for every internal node the lower and the higher
  address in its info quad are the quad indices at which the records of its lower and
  higher child begin, and for every node but the root the parent address is the quad
  index at which the record of its parent begins. The buffer handed to \<^verbatim>\<open>Compile\<close>
  consists of whole quads, and the compiled buffer has fewer than \<open>2 ^ 32\<close> slots, so
  that every quad index fits the \<^verbatim>\<open>uint32_t\<close> in which it is stored.
\<close>

theorem C5_addresses:
  assumes "Compile bvh tree = Inr tree'" "4 dvd length tree" "length tree' < 2 ^ 32"
  shows "\<exists>node. Root bvh = Some node \<and> linked tree' node (length tree div 4) None"
proof -
  from assms(1) obtain node where r: "Root bvh = Some node" and c: "compilable node"
    and t: "tree' = tree @ layout node True (length tree) 0 False"
    by (rule Compile_layout)
  have "length tree + slots node < 2 ^ 32"
    using assms(3) unfolding t by (simp add: length_layout)
  then have "linked (tree @ layout node True (length tree) 0 False @ []) node
               (length tree div 4) None"
    using c assms(2) by (intro linked_layout) simp_all
  then show ?thesis using r t by simp
qed

theorem C5_witness:
  "Compile \<lparr>Root = Some three_balls_tree\<rparr> [RGBA_PAD, RGBA_PAD, RGBA_PAD, RGBA_PAD]
     = Inr three_balls_appended
   \<and> (4 :: nat) dvd 4
   \<and> length three_balls_appended < 2 ^ 32
   \<and> linked three_balls_appended three_balls_tree 1 None"
proof -
  have l: "length [RGBA_PAD, RGBA_PAD, RGBA_PAD, RGBA_PAD] = 4" by simp
  have d: "4 dvd length [RGBA_PAD, RGBA_PAD, RGBA_PAD, RGBA_PAD]" unfolding l by simp
  have s: "length three_balls_appended < 2 ^ 32" by (simp add: three_balls_appended_def)
  show ?thesis
    using C5_addresses [OF three_balls_Compile_appended d s] three_balls_Compile_appended s
    unfolding l by simp
qed

subsection \<open>C6: the primitives in the leaves\<close>

text \<open>
  Claim C6: for every tree that \<^verbatim>\<open>Subdivide\<close> produces, the primitives held by the
  leaves are the input primitives, each as often as it occurs in the input, and the
  lengths of the lists of the leaves add up to the number of input primitives.
\<close>

theorem C6_leaves_hold_input:
  "mset (stored (fst (Subdivide fp prims 0 (length prims) 0 maxNumLevels minPrimitivesPerNode)))
     = mset prims
   \<and> (\<Sum>n\<leftarrow>leaves (fst (Subdivide fp prims 0 (length prims) 0 maxNumLevels minPrimitivesPerNode)).
          length (primitives n)) = length prims"
proof -
  let ?t = "fst (Subdivide fp prims 0 (length prims) 0 maxNumLevels minPrimitivesPerNode)"
  have m: "mset (stored ?t) = mset prims"
    using stored_Subdivide [of 0 "length prims" prims fp 0 maxNumLevels minPrimitivesPerNode] by simp
  then have "length (stored ?t) = length prims" by (rule mset_eq_length)
  with m show ?thesis by (simp add: length_stored)
qed

theorem C6_witness:
  "mset (stored three_balls_tree) = mset three_balls
   \<and> (\<Sum>n\<leftarrow>leaves three_balls_tree. length (primitives n)) = length three_balls"
  using C6_leaves_hold_input [of exact three_balls 1024 2] unfolding three_balls_root .

subsection \<open>C7: termination and depth\<close>

text \<open>
  Claim C7: for every \<open>maxLevels \<ge> 1\<close> the recursion of \<^verbatim>\<open>Subdivide\<close> ends: each
  recursive call increases \<open>currentLevel\<close> by one, a call with
  \<open>currentLevel = maxLevels - 1\<close> makes a leaf, and the depth of the recursion does not
  exceed \<open>maxLevels\<close>. \<^verbatim>\<open>Subdivide\<close> is a total function by the termination proof given
  with its definition; a call at level \<open>currentLevel\<close> below \<open>maxNumLevels\<close>
  produces a tree of depth at most \<open>maxNumLevels - currentLevel\<close>, for every input and
  every rounding, so that the call of the constructor, at level 0, produces a tree of depth
  at most \<open>maxNumLevels\<close>.
\<close>

theorem C7_depth_bounded:
  assumes "unat currentLevel < unat maxNumLevels"
  shows "depth (fst (Subdivide fp prims from to currentLevel maxNumLevels minPrimitivesPerNode))
           \<le> unat maxNumLevels - unat currentLevel"
  using depth_Subdivide [of fp prims "from" to currentLevel maxNumLevels minPrimitivesPerNode]
    levels_left [OF assms] by simp

theorem C7_witness:
  "unat (0 :: 32 word) < unat (2 :: 32 word)
   \<and> depth (fst (Subdivide exact [ball 0, ball 0, ball 0] 0 3 0 2 1))
        \<le> unat (2 :: 32 word) - unat (0 :: 32 word)"
  using C7_depth_bounded [of 0 2 exact "[ball 0, ball 0, ball 0]" 0 3 1] by simp

subsection \<open>C8: flags\<close>

text \<open>
  Claim C8: in the info quads of every compiled buffer, bit 31 is set exactly for the
  leaves, bit 30 exactly for the nodes that are the lower child of their parent, bit 29
  for the root and for no other node, and the bits 0 to 28 hold the number of primitives
  of a leaf and 0 for an internal node. The tree is the one that the constructor builds;
  the buffer handed to \<^verbatim>\<open>Compile\<close> consists of whole quads, and the compiled buffer has
  fewer than \<open>2 ^ 32\<close> slots.
\<close>

theorem C8_flags:
  assumes "Compile (fst (BoundingVolumesHierarchy fp prims maxNumLevels minPrimitivesPerNode)) tree
             = Inr tree'"
    and "4 dvd length tree" "length tree' < 2 ^ 32"
  shows "flagged tree' (fst (Subdivide fp prims 0 (length prims) 0 maxNumLevels minPrimitivesPerNode))
           (length tree div 4) False True"
proof -
  let ?t = "fst (Subdivide fp prims 0 (length prims) 0 maxNumLevels minPrimitivesPerNode)"
  have r: "Root (fst (BoundingVolumesHierarchy fp prims maxNumLevels minPrimitivesPerNode)) = Some ?t"
    by (cases "Subdivide fp prims 0 (length prims) 0 maxNumLevels minPrimitivesPerNode")
       (simp add: BoundingVolumesHierarchy_def)
  from assms(1) r have c: "compilable ?t"
    and t: "tree' = tree @ layout ?t True (length tree) 0 False"
    by (auto elim!: Compile_layout)
  have s: "shaped ?t" using c Subdivide_childless by (rule compilable_shaped)
  have "length tree + slots ?t < 2 ^ 32"
    using assms(3) unfolding t by (simp add: length_layout)
  then have "flagged (tree @ layout ?t True (length tree) 0 False @ []) ?t
               (length tree div 4) False True"
    using s assms(2) by (intro flagged_layout) simp_all
  then show ?thesis using t by simp
qed

theorem C8_witness:
  "Compile (fst (BoundingVolumesHierarchy exact three_balls 1024 2)) [] = Inr three_balls_compiled
   \<and> (4 :: nat) dvd 0 \<and> length three_balls_compiled < 2 ^ 32
   \<and> flagged three_balls_compiled three_balls_tree 0 False True"
proof -
  have d: "4 dvd length ([] :: Data)" by simp
  have s: "length three_balls_compiled < 2 ^ 32" by (simp add: three_balls_compiled_def)
  show ?thesis
    using C8_flags [OF three_balls_Compile d s] three_balls_Compile s
    unfolding three_balls_root by simp
qed

subsection \<open>C9: the vector is permuted\<close>

text \<open>
  Claim C9: after the construction of a \<^verbatim>\<open>BoundingVolumesHierarchy\<close> the vector holds the
  handles that it held before, each as often as before.
\<close>

theorem C9_vector_permuted:
  "mset (snd (BoundingVolumesHierarchy fp prims maxNumLevels minPrimitivesPerNode)) = mset prims"
proof -
  have "permuted_in 0 (length prims) prims
          (snd (Subdivide fp prims 0 (length prims) 0 maxNumLevels minPrimitivesPerNode))"
    by (intro Subdivide_permuted) simp_all
  then have "mset (snd (Subdivide fp prims 0 (length prims) 0 maxNumLevels minPrimitivesPerNode))
               = mset prims"
    by (intro permuted_in_mset [of 0 "length prims"]) simp_all
  then show ?thesis
    by (cases "Subdivide fp prims 0 (length prims) 0 maxNumLevels minPrimitivesPerNode")
       (simp add: BoundingVolumesHierarchy_def)
qed

theorem C9_witness:
  "mset [ball 0, ball 4, ball 8] = mset three_balls"
  using C9_vector_permuted [of exact three_balls 1024 2]
  unfolding three_balls_BoundingVolumesHierarchy by simp

subsection \<open>C10: Compile appends\<close>

text \<open>
  Claim C10: \<^verbatim>\<open>Compile\<close> leaves every element that the buffer held before as it was; what
  it appends are the records of the tree with the addresses counted from the start of
  the whole buffer, so that the only slots written twice are the two address slots of
  the internal nodes; and if the buffer held whole quads, the record of the root begins
  at the quad index that is the former length divided by 4.
\<close>

theorem C10_Compile_appends:
  assumes "Compile bvh tree = Inr tree'"
  shows "\<exists>node. Root bvh = Some node
           \<and> tree' = tree @ layout node True (length tree) 0 False
           \<and> length tree' = length tree + slots node
           \<and> take (length tree) tree' = tree
           \<and> (4 dvd length tree \<longrightarrow>
                take 8 (drop (4 * (length tree div 4)) tree') = box_quads node)"
proof -
  from assms obtain node where r: "Root bvh = Some node"
    and t: "tree' = tree @ layout node True (length tree) 0 False"
    by (rule Compile_layout)
  have "take 8 (drop (length tree) (tree @ layout node True (length tree) 0 False @ []))
          = box_quads node"
    by (rule header_box) simp
  then have "take 8 (drop (length tree) tree') = box_quads node"
    using t by simp
  then show ?thesis using r t by (auto simp add: length_layout)
qed

theorem C10_witness:
  "Compile \<lparr>Root = Some three_balls_tree\<rparr> [RGBA_PAD, RGBA_PAD, RGBA_PAD, RGBA_PAD]
     = Inr three_balls_appended
   \<and> take 4 three_balls_appended = [RGBA_PAD, RGBA_PAD, RGBA_PAD, RGBA_PAD]
   \<and> take 8 (drop 4 three_balls_appended) = box_quads three_balls_tree"
proof -
  have l: "length [RGBA_PAD, RGBA_PAD, RGBA_PAD, RGBA_PAD] = 4" by simp
  show ?thesis
    using C10_Compile_appends [OF three_balls_Compile_appended] three_balls_Compile_appended
    unfolding l by simp
qed


end
